theory Spec2Isabelle
  imports Main "HOL-Library.Word"
begin

unbundle bit_operations_syntax

section \<open>Platform, element type and constants\<close>

text \<open>
  The class \<open>etl::ibitset\<close> of \<open>ibitset.h\<close> packs bits into elements of type
  \<open>uint8_t\<close>. The model fixes \<open>size_t\<close> at 64 bits and \<open>int\<close> at 32 bits.
  A \<open>size_t\<close> value is a natural number below \<open>2 ^ 64\<close>; wherever the source can
  leave that range the wrap-around is written with \<open>size_t_wrap\<close>.
  Undefined behaviour of the source (an access outside the storage array, a shift of a
  promoted \<open>int\<close> by 32 or more) is an error value of the model.
\<close>

type_synonym element_t = "8 word"

datatype error = OutOfBounds | UndefinedShift

text \<open>\<open>ALL_SET\<close>, \<open>BITS_PER_ELEMENT\<close> and \<open>npos\<close> are
  \<open>integral_limits<element_t>::max\<close>, \<open>integral_limits<element_t>::bits\<close> and
  \<open>integral_limits<size_t>::max\<close>: the largest \<open>uint8_t\<close>, its width, and the
  largest \<open>size_t\<close>.\<close>

definition ALL_SET :: element_t where
  "ALL_SET = 255"

definition ALL_CLEAR :: element_t where
  "ALL_CLEAR = 0"

definition BITS_PER_ELEMENT :: nat where
  "BITS_PER_ELEMENT = 8"

text \<open>Modelled from the spec: \<open>etl::log2<BITS_PER_ELEMENT>::value\<close> (its header is not
  among the sources) is the shift that divides a position by \<open>bits_per_element\<close>,
  which is 3 for elements of 8 bits.\<close>

definition log2_BITS_PER_ELEMENT :: nat where
  "log2_BITS_PER_ELEMENT = 3"

definition npos :: nat where
  "npos = 2 ^ 64 - 1"

definition size_t_wrap :: "int \<Rightarrow> nat" where
  "size_t_wrap x = nat (x mod 2 ^ 64)"

text \<open>\<open>x << s\<close> and \<open>x >> s\<close> for an \<open>element_t\<close> \<open>x\<close>: the operand is promoted to
  \<open>int\<close>, shifting by the width of \<open>int\<close> or more is undefined, and the result is
  converted back to \<open>element_t\<close> (its low 8 bits).\<close>

definition shl_elem :: "element_t \<Rightarrow> nat \<Rightarrow> error + element_t" where
  "shl_elem x s = (if s < 32 then Inr (push_bit s x) else Inl UndefinedShift)"

definition shr_elem :: "element_t \<Rightarrow> nat \<Rightarrow> error + element_t" where
  "shr_elem x s = (if s < 32 then Inr (drop_bit s x) else Inl UndefinedShift)"

text \<open>Modelled from the spec: \<open>etl::count_bits\<close> (declared in \<open>binary.h\<close>, which is
  not among the sources) returns the population count of one element, the number of its
  set bits.\<close>

definition count_bits :: "element_t \<Rightarrow> nat" where
  "count_bits v = length (filter (\<lambda>k. bit v k) [0..<8])"

section \<open>The bitset and its storage\<close>

text \<open>The members \<open>NBITS\<close>, \<open>SIZE\<close>, \<open>TOP_MASK\<close> and the storage \<open>pdata\<close> points to.
  The list holds the elements of the caller's array; an index outside it is an access
  outside the array.\<close>

record ibitset =
  NBITS :: nat
  SIZE :: nat
  TOP_MASK :: element_t
  pdata :: "element_t list"

definition rd :: "element_t list \<Rightarrow> nat \<Rightarrow> error + element_t" where
  "rd d i = (if i < length d then Inr (d ! i) else Inl OutOfBounds)"

definition wr :: "ibitset \<Rightarrow> nat \<Rightarrow> element_t \<Rightarrow> error + ibitset" where
  "wr b i v =
     (if i < length (pdata b) then Inr (b\<lparr>pdata := (pdata b)[i := v]\<rparr>)
      else Inl OutOfBounds)"

subsection \<open>Constructor\<close>

text \<open>\<open>ALL_SET << top_mask_shift\<close> is computed in \<open>int\<close>, complemented there, and
  converted to \<open>element_t\<close>.\<close>

definition ibitset_ctor :: "nat \<Rightarrow> nat \<Rightarrow> element_t list \<Rightarrow> ibitset" where
  "ibitset_ctor nbits size_e d =
     (let allocated_bits = size_t_wrap (int size_e * int BITS_PER_ELEMENT);
          top_mask_shift =
            size_t_wrap (int BITS_PER_ELEMENT -
                         int (size_t_wrap (int allocated_bits - int nbits)))
              mod BITS_PER_ELEMENT
      in \<lparr>NBITS = nbits, SIZE = size_e,
          TOP_MASK =
            (if top_mask_shift = 0 then ALL_SET
             else ucast (NOT (push_bit top_mask_shift (ucast ALL_SET :: 32 word)))),
          pdata = d\<rparr>)"

subsection \<open>Bit indexing\<close>

text \<open>The index and mask computation that \<open>test\<close>, \<open>set(position, value)\<close>,
  \<open>reset(position)\<close> and \<open>flip(position)\<close> each repeat: element 0 and
  \<open>element_t(1) << position\<close> when \<open>SIZE == 1\<close>, otherwise
  \<open>position >> log2\<close> and \<open>element_t(1) << (position & (BITS_PER_ELEMENT - 1))\<close>.\<close>

definition index_and_mask :: "ibitset \<Rightarrow> nat \<Rightarrow> error + (nat \<times> element_t)" where
  "index_and_mask b position =
     (if SIZE b = 1 then
        (case shl_elem 1 position of
           Inl e \<Rightarrow> Inl e
         | Inr m \<Rightarrow> Inr (0, m))
      else
        (case shl_elem 1 (position AND (BITS_PER_ELEMENT - 1)) of
           Inl e \<Rightarrow> Inl e
         | Inr m \<Rightarrow> Inr (drop_bit log2_BITS_PER_ELEMENT position, m)))"

subsection \<open>Queries\<close>

definition test :: "ibitset \<Rightarrow> nat \<Rightarrow> error + bool" where
  "test b position =
     (case index_and_mask b position of
        Inl e \<Rightarrow> Inl e
      | Inr (index, msk) \<Rightarrow>
          (case rd (pdata b) index of
             Inl e \<Rightarrow> Inl e
           | Inr v \<Rightarrow> Inr (v AND msk \<noteq> 0)))"

function count_loop :: "ibitset \<Rightarrow> nat \<Rightarrow> nat \<Rightarrow> error + nat" where
  "count_loop b i n =
     (if i < SIZE b then
        (case rd (pdata b) i of
           Inl e \<Rightarrow> Inl e
         | Inr v \<Rightarrow> count_loop b (i + 1) (size_t_wrap (int n + int (count_bits v))))
      else Inr n)"
  by pat_completeness auto
termination
  by (relation "measure (\<lambda>(b, i, n). SIZE b - i)") auto

definition count :: "ibitset \<Rightarrow> error + nat" where
  "count b = count_loop b 0 0"

function all_loop :: "ibitset \<Rightarrow> nat \<Rightarrow> error + bool" where
  "all_loop b i =
     (if i < size_t_wrap (int (SIZE b) - 1) then
        (case rd (pdata b) i of
           Inl e \<Rightarrow> Inl e
         | Inr v \<Rightarrow> if v \<noteq> ALL_SET then Inr False else all_loop b (i + 1))
      else Inr True)"
  by pat_completeness auto
termination
  by (relation "measure (\<lambda>(b, i). size_t_wrap (int (SIZE b) - 1) - i)") auto

definition all :: "ibitset \<Rightarrow> error + bool" where
  "all b =
     (case all_loop b 0 of
        Inl e \<Rightarrow> Inl e
      | Inr False \<Rightarrow> Inr False
      | Inr True \<Rightarrow>
          (case rd (pdata b) (size_t_wrap (int (SIZE b) - 1)) of
             Inl e \<Rightarrow> Inl e
           | Inr v \<Rightarrow> if v \<noteq> (ALL_SET AND TOP_MASK b) then Inr False else Inr True))"

function none_loop :: "ibitset \<Rightarrow> nat \<Rightarrow> error + bool" where
  "none_loop b i =
     (if i < SIZE b then
        (case rd (pdata b) i of
           Inl e \<Rightarrow> Inl e
         | Inr v \<Rightarrow> if v \<noteq> 0 then Inr False else none_loop b (i + 1))
      else Inr True)"
  by pat_completeness auto
termination
  by (relation "measure (\<lambda>(b, i). SIZE b - i)") auto

definition none :: "ibitset \<Rightarrow> error + bool" where
  "none b = none_loop b 0"

definition any :: "ibitset \<Rightarrow> error + bool" where
  "any b =
     (case none b of
        Inl e \<Rightarrow> Inl e
      | Inr r \<Rightarrow> Inr (\<not> r))"

subsection \<open>Mutators\<close>

text \<open>The loop \<open>for (i = 0; i < SIZE; ++i) pdata[i] = v\<close> of \<open>set()\<close> and \<open>reset()\<close>.\<close>

function fill_loop :: "element_t \<Rightarrow> ibitset \<Rightarrow> nat \<Rightarrow> error + ibitset" where
  "fill_loop v b i =
     (if i < SIZE b then
        (case wr b i v of
           Inl e \<Rightarrow> Inl e
         | Inr b' \<Rightarrow> fill_loop v b' (i + 1))
      else Inr b)"
  by pat_completeness auto
termination
  by (relation "measure (\<lambda>(v, b, i). SIZE b - i)") (auto simp: wr_def split: if_splits)

text \<open>\<open>pdata[SIZE - 1] &= TOP_MASK\<close>, the last statement of \<open>set()\<close>, \<open>flip()\<close> and
  \<open>initialise\<close>.\<close>

definition mask_top :: "ibitset \<Rightarrow> error + ibitset" where
  "mask_top b =
     (let last_index = size_t_wrap (int (SIZE b) - 1) in
        case rd (pdata b) last_index of
          Inl e \<Rightarrow> Inl e
        | Inr v \<Rightarrow> wr b last_index (v AND TOP_MASK b))"

definition set_all :: "ibitset \<Rightarrow> error + ibitset" where
  "set_all b =
     (case fill_loop ALL_SET b 0 of
        Inl e \<Rightarrow> Inl e
      | Inr b' \<Rightarrow> mask_top b')"

definition set_pos :: "ibitset \<Rightarrow> nat \<Rightarrow> bool \<Rightarrow> error + ibitset" where
  "set_pos b position val =
     (case index_and_mask b position of
        Inl e \<Rightarrow> Inl e
      | Inr (index, bit_m) \<Rightarrow>
          (case rd (pdata b) index of
             Inl e \<Rightarrow> Inl e
           | Inr v \<Rightarrow>
               if val then wr b index (v OR bit_m)
               else wr b index (v AND NOT bit_m)))"

definition reset_all :: "ibitset \<Rightarrow> error + ibitset" where
  "reset_all b = fill_loop ALL_CLEAR b 0"

definition reset_pos :: "ibitset \<Rightarrow> nat \<Rightarrow> error + ibitset" where
  "reset_pos b position =
     (case index_and_mask b position of
        Inl e \<Rightarrow> Inl e
      | Inr (index, bit_m) \<Rightarrow>
          (case rd (pdata b) index of
             Inl e \<Rightarrow> Inl e
           | Inr v \<Rightarrow> wr b index (v AND NOT bit_m)))"

function flip_loop :: "ibitset \<Rightarrow> nat \<Rightarrow> error + ibitset" where
  "flip_loop b i =
     (if i < SIZE b then
        (case rd (pdata b) i of
           Inl e \<Rightarrow> Inl e
         | Inr v \<Rightarrow>
             (case wr b i (NOT v) of
                Inl e \<Rightarrow> Inl e
              | Inr b' \<Rightarrow> flip_loop b' (i + 1)))
      else Inr b)"
  by pat_completeness auto
termination
  by (relation "measure (\<lambda>(b, i). SIZE b - i)") (auto simp: wr_def split: if_splits)

definition flip_all :: "ibitset \<Rightarrow> error + ibitset" where
  "flip_all b =
     (case flip_loop b 0 of
        Inl e \<Rightarrow> Inl e
      | Inr b' \<Rightarrow> mask_top b')"

definition flip_pos :: "ibitset \<Rightarrow> nat \<Rightarrow> error + ibitset" where
  "flip_pos b position =
     (if position < NBITS b then
        (case index_and_mask b position of
           Inl e \<Rightarrow> Inl e
         | Inr (index, bit_m) \<Rightarrow>
             (case rd (pdata b) index of
                Inl e \<Rightarrow> Inl e
              | Inr v \<Rightarrow> wr b index (v XOR bit_m)))
      else Inr b)"

text \<open>\<open>set(const char* text)\<close>. The list holds the characters the pointer refers to;
  \<open>strlen\<close> counts up to the first null character, or to the end of the list where the
  terminator stands.\<close>

definition strlen :: "string \<Rightarrow> nat" where
  "strlen text = length (takeWhile (\<lambda>c. c \<noteq> CHR 0x00) text)"

fun set_text_loop :: "nat \<Rightarrow> string \<Rightarrow> ibitset \<Rightarrow> error + ibitset" where
  "set_text_loop 0 text b = Inr b"
| "set_text_loop (Suc i) text b =
     (case text of
        [] \<Rightarrow> Inl OutOfBounds
      | c # rest \<Rightarrow>
          (case set_pos b i (c = CHR ''1'') of
             Inl e \<Rightarrow> Inl e
           | Inr b' \<Rightarrow> set_text_loop i rest b'))"

definition set_text :: "ibitset \<Rightarrow> string \<Rightarrow> error + ibitset" where
  "set_text b text =
     (case reset_all b of
        Inl e \<Rightarrow> Inl e
      | Inr b' \<Rightarrow> set_text_loop (min (NBITS b') (strlen text)) text b')"

subsection \<open>Bit scanning\<close>

text \<open>The inner loop of \<open>find_next\<close> either returns a position from the function or
  falls out of the loop with the advanced position.\<close>

datatype scan = Return nat | Fallthrough nat

function find_next_bits ::
  "ibitset \<Rightarrow> bool \<Rightarrow> element_t \<Rightarrow> nat \<Rightarrow> element_t \<Rightarrow> nat \<Rightarrow> scan" where
  "find_next_bits b state v bit_i msk position =
     (if bit_i < BITS_PER_ELEMENT \<and> position < NBITS b then
        if (v AND msk \<noteq> 0) = state then Return position
        else find_next_bits b state v (bit_i + 1) (push_bit 1 msk)
               (size_t_wrap (int position + 1))
      else Fallthrough position)"
  by pat_completeness auto
termination
  by (relation "measure (\<lambda>(b, state, v, bit_i, msk, position). BITS_PER_ELEMENT - bit_i)")
     auto

function find_next_loop ::
  "ibitset \<Rightarrow> bool \<Rightarrow> nat \<Rightarrow> nat \<Rightarrow> element_t \<Rightarrow> nat \<Rightarrow> error + nat" where
  "find_next_loop b state index bit_i msk position =
     (if index < SIZE b then
        (case rd (pdata b) index of
           Inl e \<Rightarrow> Inl e
         | Inr v \<Rightarrow>
             if (state \<and> v \<noteq> ALL_CLEAR) \<or> (\<not> state \<and> v \<noteq> ALL_SET) then
               (case find_next_bits b state v bit_i msk position of
                  Return p \<Rightarrow> Inr p
                | Fallthrough p \<Rightarrow> find_next_loop b state (index + 1) 0 1 p)
             else
               find_next_loop b state (index + 1) 0 1
                 (size_t_wrap (int position + int BITS_PER_ELEMENT)))
      else Inr npos)"
  by pat_completeness auto
termination
  by (relation "measure (\<lambda>(b, state, index, bit_i, msk, position). SIZE b - index)") auto

definition find_next :: "ibitset \<Rightarrow> bool \<Rightarrow> nat \<Rightarrow> error + nat" where
  "find_next b state position =
     (let index = (if SIZE b = 1 then 0 else drop_bit log2_BITS_PER_ELEMENT position);
          bit_i = (if SIZE b = 1 then position else position AND (BITS_PER_ELEMENT - 1))
      in case shl_elem 1 bit_i of
           Inl e \<Rightarrow> Inl e
         | Inr msk \<Rightarrow> find_next_loop b state index bit_i msk position)"

definition find_first :: "ibitset \<Rightarrow> bool \<Rightarrow> error + nat" where
  "find_first b state = find_next b state 0"

subsection \<open>Shift operators\<close>

function shl_copy_loop ::
  "ibitset \<Rightarrow> nat \<Rightarrow> nat \<Rightarrow> nat \<Rightarrow> nat \<Rightarrow> error + (ibitset \<times> nat)" where
  "shl_copy_loop b i n source destination =
     (if i < n then
        (case test b source of
           Inl e \<Rightarrow> Inl e
         | Inr v \<Rightarrow>
             (case set_pos b destination v of
                Inl e \<Rightarrow> Inl e
              | Inr b' \<Rightarrow>
                  shl_copy_loop b' (i + 1) n (size_t_wrap (int source - 1))
                    (size_t_wrap (int destination - 1))))
      else Inr (b, destination))"
  by pat_completeness auto
termination
  by (relation "measure (\<lambda>(b, i, n, source, destination). n - i)") auto

function shl_clear_loop :: "ibitset \<Rightarrow> nat \<Rightarrow> nat \<Rightarrow> nat \<Rightarrow> error + ibitset" where
  "shl_clear_loop b i shift destination =
     (if i < shift then
        (case reset_pos b destination of
           Inl e \<Rightarrow> Inl e
         | Inr b' \<Rightarrow> shl_clear_loop b' (i + 1) shift (size_t_wrap (int destination - 1)))
      else Inr b)"
  by pat_completeness auto
termination
  by (relation "measure (\<lambda>(b, i, shift, destination). shift - i)") auto

definition operator_shl_assign :: "ibitset \<Rightarrow> nat \<Rightarrow> error + ibitset" where
  "operator_shl_assign b shift =
     (if SIZE b = 1 then
        (case rd (pdata b) 0 of
           Inl e \<Rightarrow> Inl e
         | Inr v \<Rightarrow>
             (case shl_elem v shift of
                Inl e \<Rightarrow> Inl e
              | Inr v' \<Rightarrow> wr b 0 v'))
      else
        (let source = size_t_wrap (int (NBITS b) - int shift - 1);
             destination = size_t_wrap (int (NBITS b) - 1)
         in case shl_copy_loop b 0 (size_t_wrap (int (NBITS b) - int shift))
                   source destination of
              Inl e \<Rightarrow> Inl e
            | Inr (b', destination') \<Rightarrow> shl_clear_loop b' 0 shift destination'))"

function shr_copy_loop ::
  "ibitset \<Rightarrow> nat \<Rightarrow> nat \<Rightarrow> nat \<Rightarrow> nat \<Rightarrow> error + (ibitset \<times> nat)" where
  "shr_copy_loop b i n source destination =
     (if i < n then
        (case test b source of
           Inl e \<Rightarrow> Inl e
         | Inr v \<Rightarrow>
             (case set_pos b destination v of
                Inl e \<Rightarrow> Inl e
              | Inr b' \<Rightarrow>
                  shr_copy_loop b' (i + 1) n (size_t_wrap (int source + 1))
                    (size_t_wrap (int destination + 1))))
      else Inr (b, destination))"
  by pat_completeness auto
termination
  by (relation "measure (\<lambda>(b, i, n, source, destination). n - i)") auto

function shr_clear_loop :: "ibitset \<Rightarrow> nat \<Rightarrow> nat \<Rightarrow> nat \<Rightarrow> error + ibitset" where
  "shr_clear_loop b i shift destination =
     (if i < shift then
        (case reset_pos b destination of
           Inl e \<Rightarrow> Inl e
         | Inr b' \<Rightarrow> shr_clear_loop b' (i + 1) shift (size_t_wrap (int destination + 1)))
      else Inr b)"
  by pat_completeness auto
termination
  by (relation "measure (\<lambda>(b, i, shift, destination). shift - i)") auto

definition operator_shr_assign :: "ibitset \<Rightarrow> nat \<Rightarrow> error + ibitset" where
  "operator_shr_assign b shift =
     (if SIZE b = 1 then
        (case rd (pdata b) 0 of
           Inl e \<Rightarrow> Inl e
         | Inr v \<Rightarrow>
             (case shr_elem v shift of
                Inl e \<Rightarrow> Inl e
              | Inr v' \<Rightarrow> wr b 0 v'))
      else
        (let source = shift;
             destination = 0
         in case shr_copy_loop b 0 (size_t_wrap (int (NBITS b) - int shift))
                   source destination of
              Inl e \<Rightarrow> Inl e
            | Inr (b', destination') \<Rightarrow> shr_clear_loop b' 0 shift destination'))"

subsection \<open>Initialisation from an unsigned long long\<close>

function initialise_loop ::
  "nat \<Rightarrow> ibitset \<Rightarrow> 64 word \<Rightarrow> nat \<Rightarrow> error + ibitset" where
  "initialise_loop SHIFT b val i =
     (if val \<noteq> 0 \<and> i < SIZE b then
        (case wr b i (ucast (val AND ucast ALL_SET)) of
           Inl e \<Rightarrow> Inl e
         | Inr b' \<Rightarrow> initialise_loop SHIFT b' (drop_bit SHIFT val) (i + 1))
      else Inr b)"
  by pat_completeness auto
termination
  by (relation "measure (\<lambda>(SHIFT, b, val, i). SIZE b - i)")
     (auto simp: wr_def split: if_splits)

definition initialise :: "ibitset \<Rightarrow> 64 word \<Rightarrow> error + ibitset" where
  "initialise b val =
     (case reset_all b of
        Inl e \<Rightarrow> Inl e
      | Inr b0 \<Rightarrow>
          (let SHIFT = (if (64 :: nat) \<le> BITS_PER_ELEMENT then 0 else BITS_PER_ELEMENT)
           in case (if SHIFT = 0 then wr b0 0 (ucast val)
                    else initialise_loop SHIFT b0 val 0) of
                Inl e \<Rightarrow> Inl e
              | Inr b1 \<Rightarrow> mask_top b1))"

section \<open>Well-formed bitsets and the invariant\<close>

text \<open>What the owning container guarantees: at least one bit, an array of exactly
  \<open>ceil(NBITS / BITS_PER_ELEMENT)\<close> elements, and the \<open>TOP_MASK\<close> the constructor
  computed.\<close>

definition well_formed :: "ibitset \<Rightarrow> bool" where
  "well_formed b \<longleftrightarrow>
     0 < NBITS b \<and> NBITS b < 2 ^ 64 \<and>
     SIZE b = (NBITS b + BITS_PER_ELEMENT - 1) div BITS_PER_ELEMENT \<and>
     length (pdata b) = SIZE b \<and>
     TOP_MASK b = TOP_MASK (ibitset_ctor (NBITS b) (SIZE b) (pdata b))"

text \<open>The invariant: in the last storage element every bit whose position is
  \<open>NBITS\<close> or above is zero.\<close>

definition invariant :: "ibitset \<Rightarrow> bool" where
  "invariant b \<longleftrightarrow>
     (\<forall>k \<in> {0..<BITS_PER_ELEMENT}.
        NBITS b \<le> (SIZE b - 1) * BITS_PER_ELEMENT + k \<longrightarrow>
        \<not> bit (pdata b ! (SIZE b - 1)) k)"

section \<open>Two readings of \<open>set(text)\<close>\<close>

text \<open>The bit a position receives when the \<open>min(NBITS, strlen(text))\<close> consumed
  characters are the first ones of the string, the last of them mapping to bit 0.\<close>

definition left_end_bit :: "nat \<Rightarrow> string \<Rightarrow> nat \<Rightarrow> bool" where
  "left_end_bit nbits text p \<longleftrightarrow>
     p < min nbits (strlen text) \<and>
     text ! (min nbits (strlen text) - 1 - p) = CHR ''1''"

text \<open>The bit a position receives when the consumed characters are taken from the
  right end of the string, the rightmost character of the string mapping to bit 0.\<close>

definition right_end_bit :: "nat \<Rightarrow> string \<Rightarrow> nat \<Rightarrow> bool" where
  "right_end_bit nbits text p \<longleftrightarrow>
     p < min nbits (strlen text) \<and>
     text ! (strlen text - 1 - p) = CHR ''1''"

section \<open>What a scan should return\<close>

text \<open>The bit stored at a position.\<close>

definition storage_bit :: "ibitset \<Rightarrow> nat \<Rightarrow> bool" where
  "storage_bit b p = bit (pdata b ! (p div 8)) (p mod 8)"

text \<open>\<open>r\<close> is the smallest position from \<open>k\<close> below \<open>NBITS\<close> whose bit equals
  \<open>state\<close>, or \<open>npos\<close> when there is none.\<close>

definition first_match :: "ibitset \<Rightarrow> bool \<Rightarrow> nat \<Rightarrow> nat \<Rightarrow> bool" where
  "first_match b state k r \<longleftrightarrow>
     (if \<exists>p. k \<le> p \<and> p < NBITS b \<and> storage_bit b p = state
      then k \<le> r \<and> r < NBITS b \<and> storage_bit b r = state \<and>
           (\<forall>q. k \<le> q \<and> q < r \<longrightarrow> storage_bit b q \<noteq> state)
      else r = npos)"

text \<open>The whole-element test of \<open>find_next\<close>: an element with this value is passed
  over without looking at its bits.\<close>

definition skipped :: "bool \<Rightarrow> element_t \<Rightarrow> bool" where
  "skipped state v \<longleftrightarrow> \<not> ((state \<and> v \<noteq> ALL_CLEAR) \<or> (\<not> state \<and> v \<noteq> ALL_SET))"

section \<open>Evaluation rules\<close>

text \<open>The recursion equations of the loops are applied on demand only.\<close>

lemmas loop_simps =
  count_loop.simps all_loop.simps none_loop.simps fill_loop.simps flip_loop.simps
  find_next_bits.simps find_next_loop.simps shl_copy_loop.simps shl_clear_loop.simps
  shr_copy_loop.simps shr_clear_loop.simps initialise_loop.simps

declare loop_simps [simp del]

lemmas eval_defs =
  loop_simps find_next_def find_first_def test_def index_and_mask_def
  shl_elem_def shr_elem_def rd_def wr_def BITS_PER_ELEMENT_def log2_BITS_PER_ELEMENT_def
  ALL_SET_def ALL_CLEAR_def size_t_wrap_def npos_def count_def count_bits_def
  all_def none_def mask_top_def set_all_def reset_all_def flip_all_def flip_pos_def
  operator_shl_assign_def operator_shr_assign_def set_pos_def reset_pos_def
  set_text_def strlen_def initialise_def well_formed_def ibitset_ctor_def Let_def

lemma invariant_eval:
  "invariant b \<longleftrightarrow>
     list_all (\<lambda>k. NBITS b \<le> (SIZE b - 1) * 8 + k \<longrightarrow> \<not> bit (pdata b ! (SIZE b - 1)) k)
       [0, 1, 2, 3, 4, 5, 6, 7]"
proof -
  have "{0..<8::nat} = set [0, 1, 2, 3, 4, 5, 6, 7]" by auto
  then show ?thesis
    unfolding invariant_def BITS_PER_ELEMENT_def list_all_iff by simp
qed

section \<open>Indexing on a well-formed bitset\<close>

text \<open>On a well-formed bitset a position below \<open>NBITS\<close> addresses bit
  \<open>position mod 8\<close> of element \<open>position div 8\<close> on both the single-element and the
  multi-element path, and each single-bit operation succeeds.\<close>

lemma and7: "(p::nat) AND 7 = p mod 8"
proof -
  have "p AND mask 3 = p mod 2 ^ 3" by (simp only: take_bit_eq_mask [symmetric] take_bit_eq_mod)
  then show ?thesis by (simp add: mask_eq_exp_minus_1)
qed

lemma drop3: "drop_bit 3 (p::nat) = p div 8"
  by (simp add: drop_bit_eq_div)

lemma wf_geometry:
  assumes "well_formed b"
  shows "0 < SIZE b" and "length (pdata b) = SIZE b" and "NBITS b \<le> SIZE b * 8"
    and "(SIZE b - 1) * 8 < NBITS b" and "NBITS b < 2 ^ 64"
  using assms unfolding well_formed_def BITS_PER_ELEMENT_def by auto

lemma index_and_mask_wf:
  assumes "well_formed b" and "p < NBITS b"
  shows "index_and_mask b p = Inr (p div 8, push_bit (p mod 8) 1)"
proof (cases "SIZE b = 1")
  case True
  with wf_geometry(3) [OF assms(1)] assms(2) have "p < 8" by simp
  with True show ?thesis by (simp add: index_and_mask_def shl_elem_def)
next
  case False
  have "p mod 8 < 32" using mod_less_divisor [of 8 p] by linarith
  with False show ?thesis
    by (simp add: index_and_mask_def shl_elem_def BITS_PER_ELEMENT_def
        log2_BITS_PER_ELEMENT_def and7 drop3)
qed

lemma index_in_storage:
  assumes "well_formed b" and "p < NBITS b"
  shows "p div 8 < length (pdata b)"
  using wf_geometry(2,3) [OF assms(1)] assms(2) by (simp add: less_mult_imp_div_less)

lemma test_wf:
  assumes "well_formed b" and "p < NBITS b"
  shows "test b p = Inr (bit (pdata b ! (p div 8)) (p mod 8))"
  using index_in_storage [OF assms]
  by (simp add: test_def index_and_mask_wf [OF assms] rd_def
      bit_iff_and_push_bit_not_eq_0)

lemma set_pos_wf:
  assumes "well_formed b" and "p < NBITS b"
  shows "set_pos b p val =
    Inr (b\<lparr>pdata := (pdata b)[p div 8 :=
      (if val then pdata b ! (p div 8) OR push_bit (p mod 8) 1
       else pdata b ! (p div 8) AND NOT (push_bit (p mod 8) 1))]\<rparr>)"
  using index_in_storage [OF assms]
  by (simp add: set_pos_def index_and_mask_wf [OF assms] rd_def wr_def)

lemma reset_pos_wf:
  assumes "well_formed b" and "p < NBITS b"
  shows "reset_pos b p =
    Inr (b\<lparr>pdata := (pdata b)[p div 8 :=
       pdata b ! (p div 8) AND NOT (push_bit (p mod 8) 1)]\<rparr>)"
  using index_in_storage [OF assms]
  by (simp add: reset_pos_def index_and_mask_wf [OF assms] rd_def wr_def)

lemma flip_pos_wf:
  assumes "well_formed b" and "p < NBITS b"
  shows "flip_pos b p =
    Inr (b\<lparr>pdata := (pdata b)[p div 8 :=
       pdata b ! (p div 8) XOR push_bit (p mod 8) 1]\<rparr>)"
  using index_in_storage [OF assms] assms(2)
  by (simp add: flip_pos_def index_and_mask_wf [OF assms] rd_def wr_def)

lemma wf_pdata_update:
  assumes "well_formed b" and "length d = length (pdata b)"
  shows "well_formed (b\<lparr>pdata := d\<rparr>)"
  using assms by (simp add: well_formed_def ibitset_ctor_def Let_def)

section \<open>Single-bit operations\<close>

lemma bit_one_shifted: "k < 8 \<Longrightarrow> bit (2 ^ k :: element_t) j \<longleftrightarrow> j = k"
  by (auto simp add: bit_exp_iff)

lemma div_mod_differ:
  "(p :: nat) \<noteq> q \<Longrightarrow> p div 8 = q div 8 \<Longrightarrow> p mod 8 \<noteq> q mod 8"
  by (metis div_mult_mod_eq)

text \<open>Writing one bit leaves every other bit below \<open>NBITS\<close> as it was.\<close>

lemma test_after_set_pos:
  assumes "well_formed b" and "q < NBITS b" and "p < NBITS b"
  shows "\<exists>b'. set_pos b q val = Inr b' \<and> well_formed b' \<and> NBITS b' = NBITS b \<and>
           test b' p = (if p = q then Inr val else test b p)"
proof -
  let ?d = "pdata b"
  let ?v = "?d ! (q div 8)"
  let ?new = "if val then ?v OR push_bit (q mod 8) 1 else ?v AND NOT (push_bit (q mod 8) 1)"
  let ?b' = "b\<lparr>pdata := ?d[q div 8 := ?new]\<rparr>"
  have run: "set_pos b q val = Inr ?b'" by (rule set_pos_wf [OF assms(1,2)])
  have wf': "well_formed ?b'" by (rule wf_pdata_update [OF assms(1)]) simp
  have nb: "NBITS ?b' = NBITS b" by simp
  have qi: "q div 8 < length ?d" by (rule index_in_storage [OF assms(1,2)])
  have pi: "p div 8 < length ?d" by (rule index_in_storage [OF assms(1,3)])
  have t': "test ?b' p = Inr (bit (pdata ?b' ! (p div 8)) (p mod 8))"
    using wf' nb assms(3) by (simp only: test_wf)
  have t: "test b p = Inr (bit (?d ! (p div 8)) (p mod 8))"
    by (rule test_wf [OF assms(1,3)])
  have "bit (pdata ?b' ! (p div 8)) (p mod 8) = (if p = q then val else bit (?d ! (p div 8)) (p mod 8))"
  proof (cases "p div 8 = q div 8")
    case False
    then have "p \<noteq> q" by auto
    with False show ?thesis by simp
  next
    case True
    show ?thesis
    proof (cases "p = q")
      case True
      with qi show ?thesis
        by (simp add: bit_or_iff bit_and_iff bit_not_iff bit_one_shifted)
    next
      case False
      from div_mod_differ [OF False True] have "p mod 8 \<noteq> q mod 8" .
      with True False qi show ?thesis
        by (simp add: bit_or_iff bit_and_iff bit_not_iff bit_one_shifted)
    qed
  qed
  with t t' have "test ?b' p = (if p = q then Inr val else test b p)" by simp
  with run wf' nb show ?thesis by blast
qed

lemma reset_pos_eq_set_pos:
  "reset_pos b p = set_pos b p False"
  by (simp add: reset_pos_def set_pos_def split: sum.splits prod.splits)

text \<open>Writing one bit below \<open>NBITS\<close> keeps the invariant.\<close>

lemma set_pos_keeps_invariant:
  assumes "well_formed b" and "invariant b" and "q < NBITS b"
  shows "\<exists>b'. set_pos b q val = Inr b' \<and> well_formed b' \<and> invariant b' \<and>
           NBITS b' = NBITS b \<and> SIZE b' = SIZE b"
proof -
  let ?d = "pdata b"
  let ?v = "?d ! (q div 8)"
  let ?new = "if val then ?v OR push_bit (q mod 8) 1 else ?v AND NOT (push_bit (q mod 8) 1)"
  let ?b' = "b\<lparr>pdata := ?d[q div 8 := ?new]\<rparr>"
  have run: "set_pos b q val = Inr ?b'" by (rule set_pos_wf [OF assms(1,3)])
  have wf': "well_formed ?b'" by (rule wf_pdata_update [OF assms(1)]) simp
  have qi: "q div 8 < length ?d" by (rule index_in_storage [OF assms(1,3)])
  have "invariant ?b'"
    unfolding invariant_def BITS_PER_ELEMENT_def
  proof (intro ballI impI)
    fix k assume "k \<in> {0..<8::nat}" and "NBITS ?b' \<le> (SIZE ?b' - 1) * 8 + k"
    then have k: "k < 8" and out: "NBITS b \<le> (SIZE b - 1) * 8 + k" by simp_all
    from assms(2) k out have old: "\<not> bit (?d ! (SIZE b - 1)) k"
      by (simp add: invariant_def BITS_PER_ELEMENT_def)
    have "\<not> bit (?d[q div 8 := ?new] ! (SIZE b - 1)) k"
    proof (cases "q div 8 = SIZE b - 1")
      case False
      with old show ?thesis by simp
    next
      case True
      then have "(SIZE b - 1) * 8 + q mod 8 = q" using div_mult_mod_eq [of q 8] by simp
      with out assms(3) have "k \<noteq> q mod 8" by auto
      with True qi old show ?thesis
        by (simp add: bit_or_iff bit_and_iff bit_not_iff bit_one_shifted)
    qed
    then show "\<not> bit (pdata ?b' ! (SIZE ?b' - 1)) k" by simp
  qed
  with run wf' show ?thesis by simp
qed

section \<open>Claims about single positions\<close>

text \<open>
  C9. On every well-formed bitset and for every position \<open>p < NBITS\<close>: \<open>set(p)\<close>
  succeeds and \<open>test(p)\<close> on the result returns true; \<open>reset(p)\<close> succeeds and
  \<open>test(p)\<close> on the result returns false.
\<close>

theorem set_reset_then_test:
  assumes "well_formed b" and "p < NBITS b"
  shows "(\<exists>b'. set_pos b p True = Inr b' \<and> test b' p = Inr True) \<and>
         (\<exists>b'. reset_pos b p = Inr b' \<and> test b' p = Inr False)"
  using test_after_set_pos [OF assms(1,2,2), of True]
        test_after_set_pos [OF assms(1,2,2), of False]
  by (auto simp add: reset_pos_eq_set_pos)

lemma well_formed_b13: "well_formed \<lparr>NBITS = 13, SIZE = 2, TOP_MASK = 31, pdata = [a, c]\<rparr>"
  by (simp add: well_formed_def ibitset_ctor_def BITS_PER_ELEMENT_def size_t_wrap_def
      ALL_SET_def Let_def)

theorem set_reset_then_test_witness:
  "(\<exists>b'. set_pos \<lparr>NBITS = 13, SIZE = 2, TOP_MASK = 31, pdata = [0, 0]\<rparr> 10 True = Inr b'
         \<and> test b' 10 = Inr True) \<and>
   (\<exists>b'. reset_pos \<lparr>NBITS = 13, SIZE = 2, TOP_MASK = 31, pdata = [0, 0]\<rparr> 10 = Inr b'
         \<and> test b' 10 = Inr False)"
  by (rule set_reset_then_test [OF well_formed_b13]) simp

text \<open>
  C8. For every bitset and every position \<open>p \<ge> NBITS\<close>, \<open>flip(p)\<close> returns normally
  and leaves the bitset, its storage included, unchanged.
\<close>

theorem flip_pos_out_of_range:
  assumes "NBITS b \<le> p"
  shows "flip_pos b p = Inr b"
  using assms by (simp add: flip_pos_def)

theorem flip_pos_out_of_range_witness:
  "flip_pos \<lparr>NBITS = 13, SIZE = 2, TOP_MASK = 31, pdata = [5, 9]\<rparr> 13 =
     Inr \<lparr>NBITS = 13, SIZE = 2, TOP_MASK = 31, pdata = [5, 9]\<rparr>"
  by (rule flip_pos_out_of_range) simp

section \<open>Bit scanning across a skipped element\<close>

text \<open>
  C1. \<open>find_next(state, k)\<close> is claimed to return the smallest position \<open>p \<ge> k\<close> with
  \<open>test(p) = state\<close>, also when the element containing \<open>k\<close> is skipped whole. On the
  16-bit bitset with storage \<open>[0x00, 0x01]\<close> (only bit 8 set) the search for a set bit
  from position 3 skips element 0, advances the position by 8 from 3 rather than to the
  start of element 1, and returns 11: a position whose bit is clear, while the set bit at
  position 8 is the one the claim names.
\<close>

theorem find_next_after_skipped_element:
  "find_next \<lparr>NBITS = 16, SIZE = 2, TOP_MASK = 255, pdata = [0, 1]\<rparr> True 3 = Inr 11 \<and>
   test \<lparr>NBITS = 16, SIZE = 2, TOP_MASK = 255, pdata = [0, 1]\<rparr> 11 = Inr False \<and>
   test \<lparr>NBITS = 16, SIZE = 2, TOP_MASK = 255, pdata = [0, 1]\<rparr> 8 = Inr True"
  by (simp add: eval_defs)

lemma find_next_example_well_formed:
  "well_formed \<lparr>NBITS = 16, SIZE = 2, TOP_MASK = 255, pdata = [0, 1]\<rparr> \<and>
   invariant \<lparr>NBITS = 16, SIZE = 2, TOP_MASK = 255, pdata = [0, 1]\<rparr>"
  by (simp add: eval_defs invariant_eval)

lemma find_next_aligned_start:
  "find_next \<lparr>NBITS = 16, SIZE = 2, TOP_MASK = 255, pdata = [0, 1]\<rparr> True 0 = Inr 8"
  by (simp add: eval_defs)

section \<open>Shift operators\<close>

text \<open>
  C2. The shift operators are claimed to keep the bits at positions \<open>\<ge> NBITS\<close> of the
  last element zero on both paths. On the single-element path \<open>operator<<=\<close> shifts the
  element and never masks it: the 4-bit bitset \<open>1111\<close> shifted left by 1 holds \<open>0x1E\<close>,
  whose bit 4 is set.
\<close>

theorem shl_single_element_leaves_high_bit:
  "operator_shl_assign \<lparr>NBITS = 4, SIZE = 1, TOP_MASK = 15, pdata = [15]\<rparr> 1 =
     Inr \<lparr>NBITS = 4, SIZE = 1, TOP_MASK = 15, pdata = [30]\<rparr> \<and>
   bit (30 :: element_t) 4"
  by (simp add: eval_defs)

lemma shl_example_invariant_before:
  "well_formed \<lparr>NBITS = 4, SIZE = 1, TOP_MASK = 15, pdata = [15]\<rparr> \<and>
   invariant \<lparr>NBITS = 4, SIZE = 1, TOP_MASK = 15, pdata = [15]\<rparr>"
  by (simp add: eval_defs invariant_eval)

lemma shl_example_invariant_after:
  "\<not> invariant \<lparr>NBITS = 4, SIZE = 1, TOP_MASK = 15, pdata = [30]\<rparr>"
  by (simp add: invariant_eval)

text \<open>
  C4. A left shift by \<open>NBITS\<close> or more is claimed to clear every bit. On the
  single-element path the 4-bit bitset \<open>0001\<close> shifted left by 4 holds \<open>0x10\<close>, and
  \<open>none()\<close> returns false. On the multi-element path a shift above \<open>NBITS\<close> wraps
  \<open>NBITS - shift\<close> around and leaves the storage array.
\<close>

theorem shl_by_width_not_none:
  "operator_shl_assign \<lparr>NBITS = 4, SIZE = 1, TOP_MASK = 15, pdata = [1]\<rparr> 4 =
     Inr \<lparr>NBITS = 4, SIZE = 1, TOP_MASK = 15, pdata = [16]\<rparr> \<and>
   none \<lparr>NBITS = 4, SIZE = 1, TOP_MASK = 15, pdata = [16]\<rparr> = Inr False \<and>
   operator_shl_assign \<lparr>NBITS = 16, SIZE = 2, TOP_MASK = 255, pdata = [1, 0]\<rparr> 17 =
     Inl OutOfBounds"
  by (simp add: eval_defs)

text \<open>The example of the spec: an 8-bit bitset \<open>00000001\<close>.\<close>

lemma shl_eight_bit_example:
  "operator_shl_assign \<lparr>NBITS = 8, SIZE = 1, TOP_MASK = 255, pdata = [1]\<rparr> 1 =
     Inr \<lparr>NBITS = 8, SIZE = 1, TOP_MASK = 255, pdata = [2]\<rparr> \<and>
   operator_shl_assign \<lparr>NBITS = 8, SIZE = 1, TOP_MASK = 255, pdata = [1]\<rparr> 8 =
     Inr \<lparr>NBITS = 8, SIZE = 1, TOP_MASK = 255, pdata = [0]\<rparr> \<and>
   operator_shl_assign \<lparr>NBITS = 16, SIZE = 2, TOP_MASK = 255, pdata = [1, 128]\<rparr> 16 =
     Inr \<lparr>NBITS = 16, SIZE = 2, TOP_MASK = 255, pdata = [0, 0]\<rparr>"
  by (simp add: eval_defs)

section \<open>The top mask\<close>

lemma int_size_t_wrap: "int (size_t_wrap x) = x mod 2 ^ 64"
  by (simp add: size_t_wrap_def)

lemma size_t_wrap_mod8: "size_t_wrap x mod 8 = nat (x mod 8)"
proof -
  have d: "(8::int) dvd 2 ^ 64" by simp
  have "int (size_t_wrap x mod 8) = (x mod 2 ^ 64) mod 8"
    by (simp add: zmod_int int_size_t_wrap)
  also have "\<dots> = x mod 8" by (rule mod_mod_cancel [OF d])
  finally show ?thesis by linarith
qed

lemma size_t_wrap_id:
  assumes "n < 2 ^ 64"
  shows "size_t_wrap (int n) = n"
proof -
  from assms have "int n < int (2 ^ 64)" by (simp only: of_nat_less_iff)
  then have "int n < 2 ^ 64" by simp
  then have "int n mod 2 ^ 64 = int n" by (simp only: mod_pos_pos_trivial of_nat_0_le_iff)
  then show ?thesis by (simp only: size_t_wrap_def nat_int)
qed

lemma mod8_complement:
  assumes a: "(A::int) mod 8 = 0" and b: "B mod 8 = (A - n) mod 8"
  shows "(8 - B) mod 8 = n mod 8"
proof -
  from a obtain q where A: "A = 8 * q" by (auto simp add: mod_eq_0_iff_dvd)
  have "(8 - B) mod 8 = (8 - B mod 8) mod 8" by (simp only: mod_diff_right_eq)
  also have "\<dots> = (8 - (A - n) mod 8) mod 8" by (simp only: b)
  also have "\<dots> = (8 - (A - n)) mod 8" by (simp only: mod_diff_right_eq)
  also have "8 - (A - n) = n + 8 * (1 - q)" by (simp add: A algebra_simps)
  also have "(n + 8 * (1 - q)) mod 8 = n mod 8" by (simp only: mod_mult_self2)
  finally show ?thesis .
qed

lemma top_mask_shift_eq:
  "size_t_wrap (int BITS_PER_ELEMENT -
      int (size_t_wrap (int (size_t_wrap (int size_e * int BITS_PER_ELEMENT)) - int nbits)))
     mod BITS_PER_ELEMENT = nbits mod 8"
proof -
  let ?A = "(int size_e * 8) mod 2 ^ 64"
  let ?B = "(?A - int nbits) mod 2 ^ 64"
  have d: "(8::int) dvd 2 ^ 64" by simp
  have "?A mod 8 = (int size_e * 8) mod 8"
    by (rule mod_mod_cancel [OF d])
  then have a: "?A mod 8 = 0" by simp
  have b: "?B mod 8 = (?A - int nbits) mod 8"
    by (rule mod_mod_cancel [OF d])
  have "(8 - ?B) mod 8 = int nbits mod 8" by (rule mod8_complement [OF a b])
  moreover have "nat (int nbits mod 8) = nbits mod 8" by (simp add: nat_mod_distrib)
  ultimately have "nat ((8 - ?B) mod 8) = nbits mod 8" by (simp only:)
  then show ?thesis
    by (simp add: BITS_PER_ELEMENT_def size_t_wrap_mod8 int_size_t_wrap)
qed

lemma low_mask_by_complement:
  assumes "0 < s" and "s < 8"
  shows "(ucast (NOT (push_bit s (ucast ALL_SET :: 32 word))) :: element_t) = mask s"
proof -
  from assms have "s = 1 \<or> s = 2 \<or> s = 3 \<or> s = 4 \<or> s = 5 \<or> s = 6 \<or> s = 7" by arith
  then show ?thesis
    by (elim disjE) (simp_all add: ALL_SET_def mask_eq_exp_minus_1)
qed

lemma TOP_MASK_ctor:
  "TOP_MASK (ibitset_ctor nbits size_e d) =
     (if nbits mod 8 = 0 then ALL_SET else mask (nbits mod 8))"
proof -
  have "nbits mod 8 < 8" by simp
  then show ?thesis
    by (simp add: ibitset_ctor_def Let_def top_mask_shift_eq low_mask_by_complement
        del: mod_less_divisor)
qed

lemma bit_ALL_SET: "bit ALL_SET k \<longleftrightarrow> k < 8"
proof -
  have "ALL_SET = mask 8" by (simp add: ALL_SET_def mask_eq_exp_minus_1)
  moreover have "bit (mask 8 :: element_t) k \<longleftrightarrow> k < 8" by (auto simp add: bit_mask_iff)
  ultimately show ?thesis by (simp only:)
qed

lemma ceil_div8:
  "((n::nat) + 7) div 8 = (if n mod 8 = 0 then n div 8 else n div 8 + 1)"
  by presburger

lemma last_element_base:
  assumes "well_formed b"
  shows "(SIZE b - 1) * 8 + (if NBITS b mod 8 = 0 then 8 else NBITS b mod 8) = NBITS b"
proof -
  from assms have sz: "SIZE b = (NBITS b + 7) div 8" and pos: "0 < NBITS b"
    by (simp_all add: well_formed_def BITS_PER_ELEMENT_def)
  have split: "NBITS b div 8 * 8 + NBITS b mod 8 = NBITS b" by simp
  show ?thesis
  proof (cases "NBITS b mod 8 = 0")
    case True
    with split pos have "0 < NBITS b div 8" by (cases "NBITS b div 8") auto
    with True split sz show ?thesis by (simp add: ceil_div8 algebra_simps)
  next
    case False
    with split sz show ?thesis by (simp add: ceil_div8)
  qed
qed

text \<open>On a well-formed bitset bit \<open>k\<close> of \<open>TOP_MASK\<close> is set exactly when position
  \<open>k\<close> of the last element lies below \<open>NBITS\<close>.\<close>

lemma bit_TOP_MASK:
  assumes "well_formed b" and "k < 8"
  shows "bit (TOP_MASK b) k \<longleftrightarrow> (SIZE b - 1) * 8 + k < NBITS b"
proof -
  from assms(1) have tm: "TOP_MASK b = (if NBITS b mod 8 = 0 then ALL_SET else mask (NBITS b mod 8))"
    by (simp add: well_formed_def TOP_MASK_ctor)
  note base = last_element_base [OF assms(1)]
  show ?thesis
  proof (cases "NBITS b mod 8 = 0")
    case True
    with base have "(SIZE b - 1) * 8 + 8 = NBITS b" by simp
    with assms(2) True tm show ?thesis by (simp add: bit_ALL_SET)
  next
    case False
    with base have "(SIZE b - 1) * 8 + NBITS b mod 8 = NBITS b" by simp
    with assms(2) False tm show ?thesis by (auto simp add: bit_mask_iff)
  qed
qed

lemma invariant_iff_masked:
  assumes "well_formed b"
  shows "invariant b \<longleftrightarrow> pdata b ! (SIZE b - 1) AND TOP_MASK b = pdata b ! (SIZE b - 1)"
proof
  assume inv: "invariant b"
  show "pdata b ! (SIZE b - 1) AND TOP_MASK b = pdata b ! (SIZE b - 1)"
  proof (rule bit_word_eqI)
    fix k assume "k < LENGTH(8)"
    then have k: "k < 8" by simp
    from inv k have "bit (pdata b ! (SIZE b - 1)) k \<Longrightarrow> (SIZE b - 1) * 8 + k < NBITS b"
      by (force simp add: invariant_def BITS_PER_ELEMENT_def)
    then show "bit (pdata b ! (SIZE b - 1) AND TOP_MASK b) k = bit (pdata b ! (SIZE b - 1)) k"
      by (auto simp add: bit_and_iff bit_TOP_MASK [OF assms k])
  qed
next
  assume eq: "pdata b ! (SIZE b - 1) AND TOP_MASK b = pdata b ! (SIZE b - 1)"
  show "invariant b"
    unfolding invariant_def BITS_PER_ELEMENT_def
  proof (intro ballI impI)
    fix k assume "k \<in> {0..<8::nat}" and out: "NBITS b \<le> (SIZE b - 1) * 8 + k"
    then have k: "k < 8" by simp
    from out have "\<not> bit (TOP_MASK b) k" by (simp add: bit_TOP_MASK [OF assms k])
    then have "\<not> bit (pdata b ! (SIZE b - 1) AND TOP_MASK b) k" by (simp add: bit_and_iff)
    with eq show "\<not> bit (pdata b ! (SIZE b - 1)) k" by simp
  qed
qed

lemma wf_last_index:
  assumes "well_formed b"
  shows "size_t_wrap (int (SIZE b) - 1) = SIZE b - 1"
proof -
  from assms have "0 < SIZE b" and "SIZE b \<le> NBITS b" and "NBITS b < 2 ^ 64"
    by (auto simp add: well_formed_def BITS_PER_ELEMENT_def)
  then have "int (SIZE b) - 1 = int (SIZE b - 1)" and "SIZE b - 1 < 2 ^ 64" by auto
  then show ?thesis by (simp only: size_t_wrap_id)
qed

lemma mask_top_wf:
  assumes "well_formed b"
  shows "mask_top b =
    Inr (b\<lparr>pdata := (pdata b)[SIZE b - 1 := pdata b ! (SIZE b - 1) AND TOP_MASK b]\<rparr>)"
  using wf_geometry(1,2) [OF assms]
  by (simp add: mask_top_def wf_last_index [OF assms] rd_def wr_def Let_def)

lemma invariant_after_mask_top:
  assumes "well_formed b"
  shows "\<exists>b'. mask_top b = Inr b' \<and> well_formed b' \<and> invariant b'"
proof -
  let ?b' = "b\<lparr>pdata := (pdata b)[SIZE b - 1 := pdata b ! (SIZE b - 1) AND TOP_MASK b]\<rparr>"
  have wf': "well_formed ?b'" by (rule wf_pdata_update [OF assms]) simp
  have "invariant ?b' \<longleftrightarrow>
      pdata ?b' ! (SIZE ?b' - 1) AND TOP_MASK ?b' = pdata ?b' ! (SIZE ?b' - 1)"
    by (rule invariant_iff_masked [OF wf'])
  then have "invariant ?b'"
    using wf_geometry(1,2) [OF assms] by (simp add: and.assoc)
  with wf' mask_top_wf [OF assms] show ?thesis by blast
qed

section \<open>Whole-array loops\<close>

lemma fill_loop_result:
  "length (pdata b) = SIZE b \<Longrightarrow> i \<le> SIZE b \<Longrightarrow>
   fill_loop v b i = Inr (b\<lparr>pdata := take i (pdata b) @ replicate (SIZE b - i) v\<rparr>)"
proof (induction v b i rule: fill_loop.induct)
  case (1 v b i)
  show ?case
  proof (cases "i < SIZE b")
    case False
    then have "fill_loop v b i = Inr b" by (simp add: fill_loop.simps [of v b i])
    moreover from False "1.prems" have "i = SIZE b" by simp
    ultimately show ?thesis using "1.prems" by simp
  next
    case True
    let ?b' = "b\<lparr>pdata := (pdata b)[i := v]\<rparr>"
    from True "1.prems" have w: "wr b i v = Inr ?b'" by (simp add: wr_def)
    from "1.prems" True have "fill_loop v ?b' (i + 1) =
        Inr (?b'\<lparr>pdata := take (i + 1) (pdata ?b') @ replicate (SIZE ?b' - (i + 1)) v\<rparr>)"
      by (intro "1.IH" [OF True w]) simp_all
    moreover have "take (i + 1) ((pdata b)[i := v]) @ replicate (SIZE b - (i + 1)) v =
        take i (pdata b) @ replicate (SIZE b - i) v"
    proof -
      from True "1.prems" have "take (i + 1) ((pdata b)[i := v]) = take i (pdata b) @ [v]"
        by (simp add: take_Suc_conv_app_nth)
      moreover from True have "v # replicate (SIZE b - (i + 1)) v = replicate (SIZE b - i) v"
        by (cases "SIZE b - i") simp_all
      ultimately show ?thesis by simp
    qed
    ultimately show ?thesis using True w by (simp add: fill_loop.simps [of v b i])
  qed
qed

lemma flip_loop_result:
  "length (pdata b) = SIZE b \<Longrightarrow> i \<le> SIZE b \<Longrightarrow>
   flip_loop b i = Inr (b\<lparr>pdata := take i (pdata b) @ map NOT (drop i (pdata b))\<rparr>)"
proof (induction b i rule: flip_loop.induct)
  case (1 b i)
  show ?case
  proof (cases "i < SIZE b")
    case False
    then have "flip_loop b i = Inr b" by (simp add: flip_loop.simps [of b i])
    moreover from False "1.prems" have "i = SIZE b" by simp
    ultimately show ?thesis using "1.prems" by simp
  next
    case True
    let ?v = "pdata b ! i"
    let ?b' = "b\<lparr>pdata := (pdata b)[i := NOT ?v]\<rparr>"
    from True "1.prems" have r: "rd (pdata b) i = Inr ?v" by (simp add: rd_def)
    from True "1.prems" have w: "wr b i (NOT ?v) = Inr ?b'" by (simp add: wr_def)
    from "1.prems" True have "flip_loop ?b' (i + 1) =
        Inr (?b'\<lparr>pdata := take (i + 1) (pdata ?b') @ map NOT (drop (i + 1) (pdata ?b'))\<rparr>)"
      by (intro "1.IH" [OF True r w]) simp_all
    moreover have "take (i + 1) ((pdata b)[i := NOT ?v]) @
          map NOT (drop (i + 1) ((pdata b)[i := NOT ?v])) =
        take i (pdata b) @ map NOT (drop i (pdata b))"
    proof -
      from True "1.prems" have "take (i + 1) ((pdata b)[i := NOT ?v]) = take i (pdata b) @ [NOT ?v]"
        by (simp add: take_Suc_conv_app_nth)
      moreover from True "1.prems" have "drop i (pdata b) = ?v # drop (i + 1) (pdata b)"
        by (simp add: Cons_nth_drop_Suc)
      ultimately show ?thesis by simp
    qed
    ultimately show ?thesis using True r w by (simp add: flip_loop.simps [of b i])
  qed
qed

lemma all_loop_True:
  "well_formed b \<Longrightarrow> (\<And>j. i \<le> j \<Longrightarrow> j < SIZE b - 1 \<Longrightarrow> pdata b ! j = ALL_SET) \<Longrightarrow>
   all_loop b i = Inr True"
proof (induction b i rule: all_loop.induct)
  case (1 b i)
  note last = wf_last_index [OF "1.prems"(1)]
  show ?case
  proof (cases "i < SIZE b - 1")
    case False
    then show ?thesis by (simp add: all_loop.simps [of b i] last)
  next
    case True
    with wf_geometry(2) [OF "1.prems"(1)] have r: "rd (pdata b) i = Inr (pdata b ! i)"
      by (simp add: rd_def)
    from True have v: "pdata b ! i = ALL_SET" by (intro "1.prems"(2)) simp_all
    from True last have c: "i < size_t_wrap (int (SIZE b) - 1)" by simp
    have "all_loop b (i + 1) = Inr True"
      using v by (intro "1.IH" [OF c r] "1.prems") simp_all
    with True r v show ?thesis by (simp add: all_loop.simps [of b i] last)
  qed
qed

lemma initialise_loop_shape:
  "length (pdata b) = SIZE b \<Longrightarrow>
   \<exists>d. initialise_loop SHIFT b val i = Inr (b\<lparr>pdata := d\<rparr>) \<and> length d = SIZE b"
proof (induction SHIFT b val i rule: initialise_loop.induct)
  case (1 SHIFT b val i)
  show ?case
  proof (cases "val \<noteq> 0 \<and> i < SIZE b")
    case False
    with "1.prems" show ?thesis
      by (auto simp add: initialise_loop.simps [of SHIFT b val i] intro!: exI [of _ "pdata b"])
  next
    case True
    let ?b' = "b\<lparr>pdata := (pdata b)[i := ucast (val AND ucast ALL_SET)]\<rparr>"
    from True "1.prems" have w: "wr b i (ucast (val AND ucast ALL_SET)) = Inr ?b'"
      by (simp add: wr_def)
    from "1.prems" obtain d where
      "initialise_loop SHIFT ?b' (drop_bit SHIFT val) (i + 1) = Inr (?b'\<lparr>pdata := d\<rparr>)"
      and "length d = SIZE ?b'"
      using "1.IH" [OF True w] by auto
    with True w show ?thesis
      by (auto simp add: initialise_loop.simps [of SHIFT b val i])
  qed
qed

lemma double_masked_complement:
  assumes "x AND t = (x :: element_t)"
  shows "NOT (NOT x AND t) AND t = x"
proof (rule bit_eqI)
  fix k
  from assms have "bit x k \<Longrightarrow> bit t k" by (metis bit_and_iff)
  then show "bit (NOT (NOT x AND t) AND t) k = bit x k"
    by (auto simp add: bit_and_iff bit_not_iff bit_or_iff)
qed

section \<open>Construction, \<open>set()\<close> and \<open>all()\<close>\<close>

lemma ctor_fields [simp]:
  "NBITS (ibitset_ctor nbits size_e d) = nbits"
  "SIZE (ibitset_ctor nbits size_e d) = size_e"
  "pdata (ibitset_ctor nbits size_e d) = d"
  by (simp_all add: ibitset_ctor_def Let_def)

lemma ctor_well_formed:
  assumes "0 < nbits" and "nbits < 2 ^ 64"
    and "size_e = (nbits + BITS_PER_ELEMENT - 1) div BITS_PER_ELEMENT"
    and "length d = size_e"
  shows "well_formed (ibitset_ctor nbits size_e d)"
  using assms unfolding well_formed_def by simp

lemma set_all_then_all:
  assumes "well_formed b"
  shows "\<exists>b'. set_all b = Inr b' \<and> all b' = Inr True"
proof -
  note geo = wf_geometry(1,2) [OF assms]
  let ?b1 = "b\<lparr>pdata := replicate (SIZE b) ALL_SET\<rparr>"
  let ?b2 = "?b1\<lparr>pdata := (pdata ?b1)[SIZE ?b1 - 1 := pdata ?b1 ! (SIZE ?b1 - 1) AND TOP_MASK ?b1]\<rparr>"
  from geo have "fill_loop ALL_SET b 0 = Inr ?b1" by (simp add: fill_loop_result)
  moreover have wf1: "well_formed ?b1" using geo by (intro wf_pdata_update [OF assms]) simp
  then have "mask_top ?b1 = Inr ?b2" by (rule mask_top_wf)
  ultimately have run: "set_all b = Inr ?b2" by (simp add: set_all_def)
  have wf2: "well_formed ?b2" by (rule wf_pdata_update [OF wf1]) simp
  have "all_loop ?b2 0 = Inr True"
    by (rule all_loop_True [OF wf2]) simp
  moreover from geo have "rd (pdata ?b2) (SIZE ?b2 - 1) = Inr (ALL_SET AND TOP_MASK ?b2)"
    by (simp add: rd_def)
  ultimately have "all ?b2 = Inr True"
    by (simp add: all_def wf_last_index [OF assms])
  with run show ?thesis by blast
qed

text \<open>
  C5. For a construction over at least one bit with \<open>SIZE = ceil(NBITS / 8)\<close> elements:
  when \<open>NBITS\<close> is an exact multiple of \<open>BITS_PER_ELEMENT\<close> the constructor computes
  \<open>TOP_MASK = ALL_SET\<close> (not zero), and \<open>set()\<close> followed by \<open>all()\<close> yields true;
  otherwise \<open>TOP_MASK\<close> is the low-order mask of \<open>NBITS mod BITS_PER_ELEMENT\<close> bits.
\<close>

theorem ctor_top_mask:
  assumes "0 < nbits" and "nbits < 2 ^ 64"
    and "size_e = (nbits + BITS_PER_ELEMENT - 1) div BITS_PER_ELEMENT"
    and "length d = size_e"
  shows "(nbits mod BITS_PER_ELEMENT = 0 \<longrightarrow>
            TOP_MASK (ibitset_ctor nbits size_e d) = ALL_SET \<and>
            TOP_MASK (ibitset_ctor nbits size_e d) \<noteq> 0 \<and>
            (\<exists>b'. set_all (ibitset_ctor nbits size_e d) = Inr b' \<and> all b' = Inr True)) \<and>
         (nbits mod BITS_PER_ELEMENT \<noteq> 0 \<longrightarrow>
            TOP_MASK (ibitset_ctor nbits size_e d) = mask (nbits mod BITS_PER_ELEMENT))"
proof -
  have "ALL_SET \<noteq> 0" by (simp add: ALL_SET_def)
  with set_all_then_all [OF ctor_well_formed [OF assms]] show ?thesis
    by (simp add: TOP_MASK_ctor BITS_PER_ELEMENT_def)
qed

theorem ctor_top_mask_witness:
  "TOP_MASK (ibitset_ctor 8 1 [0]) = ALL_SET \<and>
   TOP_MASK (ibitset_ctor 8 1 [0]) \<noteq> 0 \<and>
   (\<exists>b'. set_all (ibitset_ctor 8 1 [0]) = Inr b' \<and> all b' = Inr True) \<and>
   TOP_MASK (ibitset_ctor 13 2 [0, 0]) = mask 5"
proof -
  have p8: "(0::nat) < 8" "(8::nat) < 2 ^ 64" and p13: "(0::nat) < 13" "(13::nat) < 2 ^ 64"
    by simp_all
  have e8: "(1::nat) = (8 + BITS_PER_ELEMENT - 1) div BITS_PER_ELEMENT"
    and e13: "(2::nat) = (13 + BITS_PER_ELEMENT - 1) div BITS_PER_ELEMENT"
    and m8: "(8::nat) mod BITS_PER_ELEMENT = 0"
    and m13: "(13::nat) mod BITS_PER_ELEMENT = 5"
    by (simp_all add: BITS_PER_ELEMENT_def)
  have l8: "length [0 :: element_t] = 1" and l13: "length [0, 0 :: element_t] = 2"
    by simp_all
  from m13 have n13: "(13::nat) mod BITS_PER_ELEMENT \<noteq> 0" by simp
  from ctor_top_mask [OF p8 e8 l8] m8
  have "TOP_MASK (ibitset_ctor 8 1 [0]) = ALL_SET \<and>
      TOP_MASK (ibitset_ctor 8 1 [0]) \<noteq> 0 \<and>
      (\<exists>b'. set_all (ibitset_ctor 8 1 [0]) = Inr b' \<and> all b' = Inr True)"
    by blast
  moreover from ctor_top_mask [OF p13 e13 l13] n13
  have "TOP_MASK (ibitset_ctor 13 2 [0, 0]) = mask (13 mod BITS_PER_ELEMENT)"
    by blast
  then have "TOP_MASK (ibitset_ctor 13 2 [0, 0]) = mask 5" by (simp only: m13)
  ultimately show ?thesis by blast
qed

section \<open>Flipping twice\<close>

lemma flip_all_wf:
  assumes "well_formed b"
  shows "flip_all b =
    Inr (b\<lparr>pdata := (map NOT (pdata b))[SIZE b - 1 := NOT (pdata b ! (SIZE b - 1)) AND TOP_MASK b]\<rparr>)"
proof -
  note geo = wf_geometry(1,2) [OF assms]
  let ?b1 = "b\<lparr>pdata := map NOT (pdata b)\<rparr>"
  from geo have "flip_loop b 0 = Inr ?b1" by (simp add: flip_loop_result)
  moreover have "well_formed ?b1" by (rule wf_pdata_update [OF assms]) simp
  then have "mask_top ?b1 =
      Inr (?b1\<lparr>pdata := (pdata ?b1)[SIZE ?b1 - 1 := pdata ?b1 ! (SIZE ?b1 - 1) AND TOP_MASK ?b1]\<rparr>)"
    by (rule mask_top_wf)
  ultimately show ?thesis using geo by (simp add: flip_all_def)
qed

lemma masked_or_complement:
  assumes "x AND t = (x :: element_t)"
  shows "(x OR NOT t) AND t = x"
  using double_masked_complement [OF assms] by simp

lemma flip_all_twice:
  assumes "well_formed b" and "invariant b"
  shows "\<exists>b1. flip_all b = Inr b1 \<and> flip_all b1 = Inr b"
proof -
  note geo = wf_geometry(1,2) [OF assms(1)]
  let ?s = "SIZE b - 1"
  let ?d1 = "(map NOT (pdata b))[?s := NOT (pdata b ! ?s) AND TOP_MASK b]"
  let ?b1 = "b\<lparr>pdata := ?d1\<rparr>"
  have f1: "flip_all b = Inr ?b1" by (rule flip_all_wf [OF assms(1)])
  have wf1: "well_formed ?b1" by (rule wf_pdata_update [OF assms(1)]) simp
  from assms have m: "pdata b ! ?s AND TOP_MASK b = pdata b ! ?s"
    by (simp add: invariant_iff_masked)
  have "(map NOT ?d1)[?s := NOT (?d1 ! ?s) AND TOP_MASK b] = pdata b"
  proof (rule nth_equalityI)
    show "length ((map NOT ?d1)[?s := NOT (?d1 ! ?s) AND TOP_MASK b]) = length (pdata b)" by simp
  next
    fix j assume "j < length ((map NOT ?d1)[?s := NOT (?d1 ! ?s) AND TOP_MASK b])"
    then have j: "j < length (pdata b)" by simp
    show "(map NOT ?d1)[?s := NOT (?d1 ! ?s) AND TOP_MASK b] ! j = pdata b ! j"
    proof (cases "j = ?s")
      case True
      with j m show ?thesis by (simp add: masked_or_complement)
    next
      case False
      with j show ?thesis by (simp add: nth_list_update)
    qed
  qed
  with flip_all_wf [OF wf1] have "flip_all ?b1 = Inr b" by simp
  with f1 show ?thesis by blast
qed

lemma flip_pos_twice:
  assumes "well_formed b" and "p < NBITS b"
  shows "\<exists>b1. flip_pos b p = Inr b1 \<and> flip_pos b1 p = Inr b"
proof -
  let ?b1 = "b\<lparr>pdata := (pdata b)[p div 8 := pdata b ! (p div 8) XOR push_bit (p mod 8) 1]\<rparr>"
  have f1: "flip_pos b p = Inr ?b1" by (rule flip_pos_wf [OF assms])
  have wf1: "well_formed ?b1" by (rule wf_pdata_update [OF assms(1)]) simp
  have "flip_pos ?b1 p =
      Inr (?b1\<lparr>pdata := (pdata ?b1)[p div 8 := pdata ?b1 ! (p div 8) XOR push_bit (p mod 8) 1]\<rparr>)"
    using assms(2) by (intro flip_pos_wf [OF wf1]) simp
  with index_in_storage [OF assms] have "flip_pos ?b1 p = Inr b"
    by (simp add: xor.assoc)
  with f1 show ?thesis by blast
qed

text \<open>
  C7. On a well-formed bitset that satisfies the invariant, \<open>flip()\<close> applied twice
  restores the original bitset, storage included; and for every position below
  \<open>NBITS\<close>, \<open>flip(position)\<close> applied twice restores it as well.
\<close>

theorem double_flip_identity:
  assumes "well_formed b" and "invariant b" and "p < NBITS b"
  shows "(\<exists>b1. flip_all b = Inr b1 \<and> flip_all b1 = Inr b) \<and>
         (\<exists>b1. flip_pos b p = Inr b1 \<and> flip_pos b1 p = Inr b)"
  using flip_all_twice [OF assms(1,2)] flip_pos_twice [OF assms(1,3)] by simp

lemma invariant_b13: "invariant \<lparr>NBITS = 13, SIZE = 2, TOP_MASK = 31, pdata = [5, 9]\<rparr>"
  by (simp add: invariant_eval)

theorem double_flip_identity_witness:
  "(\<exists>b1. flip_all \<lparr>NBITS = 13, SIZE = 2, TOP_MASK = 31, pdata = [5, 9]\<rparr> = Inr b1 \<and>
         flip_all b1 = Inr \<lparr>NBITS = 13, SIZE = 2, TOP_MASK = 31, pdata = [5, 9]\<rparr>) \<and>
   (\<exists>b1. flip_pos \<lparr>NBITS = 13, SIZE = 2, TOP_MASK = 31, pdata = [5, 9]\<rparr> 10 = Inr b1 \<and>
         flip_pos b1 10 = Inr \<lparr>NBITS = 13, SIZE = 2, TOP_MASK = 31, pdata = [5, 9]\<rparr>)"
  by (rule double_flip_identity [OF well_formed_b13 invariant_b13]) simp

section \<open>Initialisation\<close>

text \<open>
  C10. For every well-formed bitset, whatever its storage holds, and every 64-bit
  value, \<open>initialise(value)\<close> returns and the result satisfies the invariant: the last
  element has been masked with \<open>TOP_MASK\<close>.
\<close>

theorem initialise_establishes_invariant:
  assumes "well_formed b"
  shows "\<exists>b'. initialise b val = Inr b' \<and> NBITS b' = NBITS b \<and> SIZE b' = SIZE b \<and>
           TOP_MASK b' = TOP_MASK b \<and> invariant b'"
proof -
  note geo = wf_geometry(1,2) [OF assms]
  let ?b0 = "b\<lparr>pdata := replicate (SIZE b) ALL_CLEAR\<rparr>"
  from geo have r: "reset_all b = Inr ?b0" by (simp add: reset_all_def fill_loop_result)
  have "length (pdata ?b0) = SIZE ?b0" by simp
  from initialise_loop_shape [OF this, of 8 val 0] obtain d where
    l: "initialise_loop 8 ?b0 val 0 = Inr (b\<lparr>pdata := d\<rparr>)" and len: "length d = SIZE b"
    by auto
  from len geo have wf1: "well_formed (b\<lparr>pdata := d\<rparr>)"
    by (intro wf_pdata_update [OF assms]) simp
  from invariant_after_mask_top [OF wf1] obtain b' where
    m: "mask_top (b\<lparr>pdata := d\<rparr>) = Inr b'" and inv: "invariant b'" by blast
  from m have same: "NBITS b' = NBITS b \<and> SIZE b' = SIZE b \<and> TOP_MASK b' = TOP_MASK b"
    by (auto simp add: mask_top_def Let_def wr_def split: sum.splits if_splits)
  from r l m have "initialise b val = Inr b'"
    by (simp add: initialise_def BITS_PER_ELEMENT_def)
  with same inv show ?thesis by blast
qed

theorem initialise_establishes_invariant_witness:
  "\<exists>b'. initialise \<lparr>NBITS = 13, SIZE = 2, TOP_MASK = 31, pdata = [255, 255]\<rparr> 0xFFFFFF = Inr b' \<and>
        NBITS b' = 13 \<and> SIZE b' = 2 \<and> TOP_MASK b' = 31 \<and> invariant b'"
  using initialise_establishes_invariant [OF well_formed_b13, of 255 255 "0xFFFFFF"] by simp

section \<open>Setting from a string\<close>

lemma set_text_loop_step:
  "0 < i \<Longrightarrow> set_text_loop i (c # rest) b =
     (case set_pos b (i - 1) (c = CHR ''1'') of
        Inl e \<Rightarrow> Inl e
      | Inr b' \<Rightarrow> set_text_loop (i - 1) rest b')"
  by (cases i) (simp_all split: sum.splits)

lemma set_pos_all_positions:
  assumes "well_formed b" and "q < NBITS b"
  shows "\<exists>b'. set_pos b q val = Inr b' \<and> well_formed b' \<and> NBITS b' = NBITS b \<and>
           (\<forall>p<NBITS b. test b' p = (if p = q then Inr val else test b p))"
proof -
  from test_after_set_pos [OF assms assms(2), of val] obtain b' where
    run: "set_pos b q val = Inr b'" and wf': "well_formed b'" and nb: "NBITS b' = NBITS b"
    by blast
  have "test b' p = (if p = q then Inr val else test b p)" if "p < NBITS b" for p
    using test_after_set_pos [OF assms that, of val] run by auto
  with run wf' nb show ?thesis by blast
qed

lemma set_text_loop_bits:
  "well_formed b \<Longrightarrow> i \<le> NBITS b \<Longrightarrow> i \<le> length text \<Longrightarrow>
   \<exists>b'. set_text_loop i text b = Inr b' \<and> well_formed b' \<and> NBITS b' = NBITS b \<and>
        (\<forall>p<NBITS b. test b' p =
           (if p < i then Inr (text ! (i - 1 - p) = CHR ''1'') else test b p))"
proof (induction i arbitrary: "text" b)
  case 0
  then show ?case by simp
next
  case (Suc i)
  from Suc.prems(3) obtain c rest where tx: "text = c # rest" by (cases "text") auto
  from Suc.prems(2) have "i < NBITS b" by simp
  from set_pos_all_positions [OF Suc.prems(1) this, of "c = CHR ''1''"] obtain b1 where
    s1: "set_pos b i (c = CHR ''1'') = Inr b1" and wf1: "well_formed b1"
    and nb1: "NBITS b1 = NBITS b"
    and t1: "\<And>p. p < NBITS b \<Longrightarrow> test b1 p = (if p = i then Inr (c = CHR ''1'') else test b p)"
    by blast
  from Suc.prems(2,3) nb1 tx have "i \<le> NBITS b1" and "i \<le> length rest" by simp_all
  from Suc.IH [OF wf1 this] obtain b' where
    l: "set_text_loop i rest b1 = Inr b'" and wf': "well_formed b'"
    and nb': "NBITS b' = NBITS b1"
    and t': "\<And>p. p < NBITS b1 \<Longrightarrow>
        test b' p = (if p < i then Inr (rest ! (i - 1 - p) = CHR ''1'') else test b1 p)"
    by blast
  have "test b' p =
      (if p < Suc i then Inr (text ! (Suc i - 1 - p) = CHR ''1'') else test b p)"
    if p: "p < NBITS b" for p
  proof (cases "p < i")
    case True
    then have "i - p = Suc (i - 1 - p)" by simp
    then have "(c # rest) ! (i - p) = rest ! (i - 1 - p)" by (simp only: nth_Cons_Suc)
    with True t' [of p] p nb1 tx show ?thesis by simp
  next
    case False
    with t' [of p] t1 [of p] p nb1 tx show ?thesis by auto
  qed
  with s1 l wf' nb' nb1 tx show ?case by simp
qed

lemma test_after_reset_all:
  assumes "well_formed b"
  shows "\<exists>b0. reset_all b = Inr b0 \<and> well_formed b0 \<and> NBITS b0 = NBITS b \<and>
           (\<forall>p<NBITS b. test b0 p = Inr False)"
proof -
  note geo = wf_geometry(1,2) [OF assms]
  let ?b0 = "b\<lparr>pdata := replicate (SIZE b) ALL_CLEAR\<rparr>"
  from geo have r: "reset_all b = Inr ?b0" by (simp add: reset_all_def fill_loop_result)
  have wf0: "well_formed ?b0" by (rule wf_pdata_update [OF assms]) (simp add: geo)
  have "test ?b0 p = Inr False" if "p < NBITS b" for p
  proof -
    from that have p: "p < NBITS ?b0" by simp
    from index_in_storage [OF wf0 p] geo have "p div 8 < SIZE b" by simp
    with test_wf [OF wf0 p] show ?thesis by (simp add: ALL_CLEAR_def)
  qed
  with r wf0 show ?thesis by auto
qed

lemma strlen_le_length: "strlen text \<le> length text"
  by (simp add: strlen_def length_takeWhile_le)

lemma set_text_loop_keeps_invariant:
  "well_formed b \<Longrightarrow> invariant b \<Longrightarrow> i \<le> NBITS b \<Longrightarrow> i \<le> length text \<Longrightarrow>
   set_text_loop i text b = Inr b' \<Longrightarrow> invariant b'"
proof (induction i arbitrary: "text" b)
  case 0
  then show ?case by simp
next
  case (Suc i)
  from Suc.prems(4) obtain c rest where tx: "text = c # rest" by (cases "text") auto
  from Suc.prems(3) have "i < NBITS b" by simp
  from set_pos_keeps_invariant [OF Suc.prems(1,2) this, of "c = CHR ''1''"] obtain b1 where
    s1: "set_pos b i (c = CHR ''1'') = Inr b1" and wf1: "well_formed b1"
    and inv1: "invariant b1" and nb1: "NBITS b1 = NBITS b"
    by blast
  from Suc.prems(3,4) nb1 tx have "i \<le> NBITS b1" and "i \<le> length rest" by simp_all
  moreover from Suc.prems(5) tx s1 have "set_text_loop i rest b1 = Inr b'" by simp
  ultimately show ?case using Suc.IH [OF wf1 inv1] by blast
qed

lemma invariant_after_reset_all:
  assumes "well_formed b" and "reset_all b = Inr b0"
  shows "invariant b0"
proof -
  note geo = wf_geometry(1,2) [OF assms(1)]
  from geo have "reset_all b = Inr (b\<lparr>pdata := replicate (SIZE b) ALL_CLEAR\<rparr>)"
    by (simp add: reset_all_def fill_loop_result)
  with assms(2) have "b0 = b\<lparr>pdata := replicate (SIZE b) ALL_CLEAR\<rparr>" by simp
  with geo show ?thesis by (simp add: invariant_def ALL_CLEAR_def)
qed

lemma set_text_bits:
  assumes "well_formed b"
  shows "\<exists>b'. set_text b text = Inr b' \<and> NBITS b' = NBITS b \<and> invariant b' \<and>
           (\<forall>p<NBITS b. test b' p = Inr (left_end_bit (NBITS b) text p))"
proof -
  from test_after_reset_all [OF assms] obtain b0 where
    r: "reset_all b = Inr b0" and wf0: "well_formed b0" and nb0: "NBITS b0 = NBITS b"
    and t0: "\<And>p. p < NBITS b \<Longrightarrow> test b0 p = Inr False"
    by blast
  have inv0: "invariant b0" by (rule invariant_after_reset_all [OF assms r])
  let ?m = "min (NBITS b) (strlen text)"
  have le: "?m \<le> NBITS b0" "?m \<le> length text"
    using nb0 strlen_le_length [of "text"] by simp_all
  from set_text_loop_bits [OF wf0 le] obtain b' where
    l: "set_text_loop ?m text b0 = Inr b'" and nb': "NBITS b' = NBITS b0"
    and t': "\<And>p. p < NBITS b0 \<Longrightarrow>
        test b' p = (if p < ?m then Inr (text ! (?m - 1 - p) = CHR ''1'') else test b0 p)"
    by blast
  have "test b' p = Inr (left_end_bit (NBITS b) text p)" if "p < NBITS b" for p
    using t' [of p] t0 [of p] that nb0 by (simp add: left_end_bit_def)
  moreover from r l nb0 have "set_text b text = Inr b'" by (simp add: set_text_def)
  moreover have "invariant b'" by (rule set_text_loop_keeps_invariant [OF wf0 inv0 le l])
  ultimately show ?thesis using nb' nb0 by auto
qed

lemma readings_agree_on_short_text:
  "strlen text \<le> nbits \<Longrightarrow> left_end_bit nbits text p = right_end_bit nbits text p"
  by (simp add: left_end_bit_def right_end_bit_def min_def)

text \<open>
  C3, amended. \<open>set(text)\<close> clears the whole array and then consumes exactly
  \<open>min(NBITS, strlen(text))\<close> characters from the left end of the string: the last
  consumed character maps to bit 0, a character other than \<open>'1'\<close> leaves its bit clear,
  and the bits above the consumed ones, those of the invariant included, stay clear.
  When the string is no longer than
  \<open>NBITS\<close> this is the reading of the claim (the rightmost character of the string
  maps to bit 0).
\<close>

theorem set_text_consumes_left_end:
  assumes "well_formed b"
  shows "\<exists>b'. set_text b text = Inr b' \<and> NBITS b' = NBITS b \<and> invariant b' \<and>
           (\<forall>p<NBITS b. test b' p = Inr (left_end_bit (NBITS b) text p)) \<and>
           (strlen text \<le> NBITS b \<longrightarrow>
              (\<forall>p<NBITS b. test b' p = Inr (right_end_bit (NBITS b) text p)))"
  using set_text_bits [OF assms, of "text"]
  by (auto simp add: readings_agree_on_short_text)

lemma well_formed_b4: "well_formed \<lparr>NBITS = 4, SIZE = 1, TOP_MASK = 15, pdata = [a]\<rparr>"
  by (simp add: well_formed_def ibitset_ctor_def BITS_PER_ELEMENT_def size_t_wrap_def
      ALL_SET_def Let_def)

theorem set_text_consumes_left_end_witness:
  "\<exists>b'. set_text \<lparr>NBITS = 4, SIZE = 1, TOP_MASK = 15, pdata = [6]\<rparr> ''1011'' = Inr b' \<and>
        NBITS b' = 4 \<and>
        test b' 3 = Inr True \<and> test b' 2 = Inr False \<and>
        test b' 1 = Inr True \<and> test b' 0 = Inr True"
proof -
  have len: "strlen ''1011'' = 4" by (simp add: strlen_def)
  from set_text_consumes_left_end [OF well_formed_b4, of 6 "''1011''"] obtain b' where
    "set_text \<lparr>NBITS = 4, SIZE = 1, TOP_MASK = 15, pdata = [6]\<rparr> ''1011'' = Inr b'"
    and "NBITS b' = 4"
    and t: "\<And>p. p < 4 \<Longrightarrow> test b' p = Inr (left_end_bit 4 ''1011'' p)"
    by auto
  moreover have "test b' 3 = Inr True" "test b' 2 = Inr False"
    "test b' 1 = Inr True" "test b' 0 = Inr True"
    by (simp_all add: t left_end_bit_def len)
  ultimately show ?thesis by blast
qed

text \<open>
  C3, as stated, fails when the string is longer than \<open>NBITS\<close>: on a 4-bit bitset
  \<open>set("10000")\<close> consumes the first four characters \<open>"1000"\<close> and sets bit 3, while
  the four characters at the right end are \<open>"0000"\<close>.
\<close>

theorem set_text_right_end_counterexample:
  "set_text \<lparr>NBITS = 4, SIZE = 1, TOP_MASK = 15, pdata = [0]\<rparr> ''10000'' =
     Inr \<lparr>NBITS = 4, SIZE = 1, TOP_MASK = 15, pdata = [8]\<rparr> \<and>
   test \<lparr>NBITS = 4, SIZE = 1, TOP_MASK = 15, pdata = [8]\<rparr> 3 = Inr True \<and>
   \<not> right_end_bit 4 ''10000'' 3"
  by (simp add: eval_defs set_text_loop_step right_end_bit_def)

section \<open>Counting\<close>

lemma size_t_wrap_nat: "size_t_wrap (int k) = k mod 2 ^ 64"
proof -
  have "int k mod 2 ^ 64 = int (k mod 2 ^ 64)" by (simp add: zmod_int)
  then show ?thesis by (simp only: size_t_wrap_def nat_int)
qed

lemma count_loop_sum:
  "length (pdata b) = SIZE b \<Longrightarrow> i \<le> SIZE b \<Longrightarrow> n < 2 ^ 64 \<Longrightarrow>
   count_loop b i n = Inr ((n + sum_list (map count_bits (drop i (pdata b)))) mod 2 ^ 64)"
proof (induction b i n rule: count_loop.induct)
  case (1 b i n)
  show ?case
  proof (cases "i < SIZE b")
    case False
    then have "count_loop b i n = Inr n" by (simp add: count_loop.simps [of b i n])
    moreover from False "1.prems" have "drop i (pdata b) = []" by simp
    ultimately show ?thesis using "1.prems"(3) by simp
  next
    case True
    let ?v = "pdata b ! i"
    let ?n' = "size_t_wrap (int n + int (count_bits ?v))"
    from True "1.prems" have r: "rd (pdata b) i = Inr ?v" by (simp add: rd_def)
    have n': "?n' = (n + count_bits ?v) mod 2 ^ 64"
      using size_t_wrap_nat [of "n + count_bits ?v"] by simp
    then have "?n' < 2 ^ 64" by simp
    with "1.prems" True have "count_loop b (i + 1) ?n' =
        Inr ((?n' + sum_list (map count_bits (drop (i + 1) (pdata b)))) mod 2 ^ 64)"
      by (intro "1.IH" [OF True r]) simp_all
    moreover from True "1.prems" have "drop i (pdata b) = ?v # drop (i + 1) (pdata b)"
      by (simp add: Cons_nth_drop_Suc)
    moreover have "(?n' + k) mod 2 ^ 64 = (n + (count_bits ?v + k)) mod 2 ^ 64" for k
      unfolding n' by (simp only: mod_add_left_eq add.assoc)
    ultimately show ?thesis using True r by (simp add: count_loop.simps [of b i n])
  qed
qed

text \<open>The bits of the storage, by position.\<close>

lemma block_count:
  "length (filter (\<lambda>p. bit (d ! (p div 8)) (p mod 8)) [j * 8..<j * 8 + 8]) = count_bits (d ! j)"
proof -
  have "[j * 8..<j * 8 + 8] = map (\<lambda>k. k + j * 8) [0..<8]"
    by (simp only: map_add_upt add.commute)
  then have "filter (\<lambda>p. bit (d ! (p div 8)) (p mod 8)) [j * 8..<j * 8 + 8] =
      map (\<lambda>k. k + j * 8) (filter ((\<lambda>p. bit (d ! (p div 8)) (p mod 8)) \<circ> (\<lambda>k. k + j * 8)) [0..<8])"
    by (simp only: filter_map)
  moreover have "filter ((\<lambda>p. bit (d ! (p div 8)) (p mod 8)) \<circ> (\<lambda>k. k + j * 8)) [0..<8] =
      filter (\<lambda>k. bit (d ! j) k) [0..<8]"
    by (rule filter_cong) auto
  ultimately show ?thesis by (simp add: count_bits_def)
qed

lemma blocks_count:
  "s \<le> length d \<Longrightarrow>
   length (filter (\<lambda>p. bit (d ! (p div 8)) (p mod 8)) [0..<s * 8]) =
     sum_list (map count_bits (take s d))"
proof (induction s)
  case 0
  then show ?case by simp
next
  case (Suc s)
  have "[0..<Suc s * 8] = [0..<s * 8] @ [s * 8..<s * 8 + 8]"
    using upt_add_eq_append [of 0 "s * 8" 8] by (simp add: algebra_simps)
  moreover from Suc.prems have "take (Suc s) d = take s d @ [d ! s]"
    by (simp add: take_Suc_conv_app_nth)
  ultimately show ?case using Suc by (simp add: block_count)
qed

lemma no_bits_beyond_NBITS:
  assumes "well_formed b" and "invariant b"
  shows "filter (\<lambda>p. bit (pdata b ! (p div 8)) (p mod 8)) [NBITS b..<SIZE b * 8] = []"
proof -
  have "\<not> bit (pdata b ! (p div 8)) (p mod 8)" if "NBITS b \<le> p" and "p < SIZE b * 8" for p
  proof -
    from wf_geometry(4) [OF assms(1)] that have "(SIZE b - 1) * 8 \<le> p" by simp
    with that(2) wf_geometry(1) [OF assms(1)] have d: "p div 8 = SIZE b - 1"
      by (intro div_nat_eqI) (simp_all add: algebra_simps)
    then have "(SIZE b - 1) * 8 + p mod 8 = p"
      using div_mult_mod_eq [of p 8] by simp
    with that(1) assms(2) have "\<not> bit (pdata b ! (SIZE b - 1)) (p mod 8)"
      by (simp add: invariant_def BITS_PER_ELEMENT_def)
    with d show ?thesis by simp
  qed
  then show ?thesis by (simp add: filter_empty_conv)
qed

text \<open>
  C6. On a well-formed bitset that satisfies the invariant, \<open>count()\<close> returns the
  number of positions \<open>p\<close> in \<open>[0, NBITS)\<close> for which \<open>test(p)\<close> is true.
\<close>

theorem count_equals_set_positions:
  assumes "well_formed b" and "invariant b"
  shows "count b = Inr (length (filter (\<lambda>p. test b p = Inr True) [0..<NBITS b]))"
proof -
  note geo = wf_geometry [OF assms(1)]
  let ?P = "\<lambda>p. bit (pdata b ! (p div 8)) (p mod 8)"
  let ?c = "length (filter (\<lambda>p. test b p = Inr True) [0..<NBITS b])"
  have "filter (\<lambda>p. test b p = Inr True) [0..<NBITS b] = filter ?P [0..<NBITS b]"
    by (rule filter_cong) (simp_all add: test_wf [OF assms(1)])
  moreover have "[0..<SIZE b * 8] = [0..<NBITS b] @ [NBITS b..<SIZE b * 8]"
    using geo(3) upt_add_eq_append [of 0 "NBITS b" "SIZE b * 8 - NBITS b"] by simp
  then have "filter ?P [0..<SIZE b * 8] = filter ?P [0..<NBITS b]"
    by (simp add: no_bits_beyond_NBITS [OF assms])
  moreover have "length (filter ?P [0..<SIZE b * 8]) = sum_list (map count_bits (pdata b))"
    using blocks_count [of "SIZE b" "pdata b"] geo(2) by simp
  ultimately have total: "sum_list (map count_bits (pdata b)) = ?c" by simp
  have "?c \<le> NBITS b" using length_filter_le [of _ "[0..<NBITS b]"] by simp
  with geo(5) have "?c < 2 ^ 64" by simp
  then have "?c mod 2 ^ 64 = ?c" by simp
  moreover have "count b = Inr (sum_list (map count_bits (pdata b)) mod 2 ^ 64)"
    using count_loop_sum [of b 0 0] geo(2) by (simp add: count_def)
  ultimately show ?thesis using total by simp
qed

lemma upt_0_8: "[0..<8] = [0, 1, 2, 3, 4, 5, 6, 7 :: nat]"
  by (simp add: upt_rec_numeral upt_conv_Cons)

theorem count_equals_set_positions_witness:
  "count \<lparr>NBITS = 13, SIZE = 2, TOP_MASK = 31, pdata = [5, 9]\<rparr> = Inr 4 \<and>
   length (filter (\<lambda>p. test \<lparr>NBITS = 13, SIZE = 2, TOP_MASK = 31, pdata = [5, 9]\<rparr> p = Inr True)
     [0..<13]) = 4"
proof -
  have "count \<lparr>NBITS = 13, SIZE = 2, TOP_MASK = 31, pdata = [5, 9]\<rparr> = Inr 4"
    by (simp add: eval_defs upt_0_8)
  with count_equals_set_positions [OF well_formed_b13 invariant_b13] show ?thesis by simp
qed

section \<open>Shifts that stay inside the bitset\<close>

lemma size_t_wrap_pred: "0 < n \<Longrightarrow> n < 2 ^ 64 \<Longrightarrow> size_t_wrap (int n - 1) = n - 1"
proof -
  assume "0 < n" and "n < 2 ^ 64"
  then have "int n - 1 = int (n - 1)" and "n - 1 < 2 ^ 64" by simp_all
  then show ?thesis by (simp only: size_t_wrap_id)
qed

lemma size_t_wrap_succ: "n + 1 < 2 ^ 64 \<Longrightarrow> size_t_wrap (int n + 1) = n + 1"
proof -
  assume "n + 1 < 2 ^ 64"
  moreover have "int n + 1 = int (n + 1)" by simp
  ultimately show ?thesis by (simp only: size_t_wrap_id)
qed

lemma shl_copy_loop_exit:
  "\<not> i < n \<Longrightarrow> shl_copy_loop b i n source destination = Inr (b, destination)"
  by (simp add: shl_copy_loop.simps [of b i n source destination])

lemma shl_copy_loop_keeps_invariant:
  "well_formed b \<Longrightarrow> invariant b \<Longrightarrow>
   (i < n \<longrightarrow> n - i \<le> source + 1 \<and> source < NBITS b \<and>
               n - i \<le> destination + 1 \<and> destination < NBITS b) \<Longrightarrow>
   \<exists>b' d'. shl_copy_loop b i n source destination = Inr (b', d') \<and>
      well_formed b' \<and> invariant b' \<and> NBITS b' = NBITS b \<and> SIZE b' = SIZE b \<and>
      (i < n \<longrightarrow> n - i \<le> destination \<longrightarrow> d' = destination - (n - i))"
proof (induction b i n source destination rule: shl_copy_loop.induct)
  case (1 b i n source destination)
  show ?case
  proof (cases "i < n")
    case False
    with "1.prems"(1,2) show ?thesis
      by (simp add: shl_copy_loop.simps [of b i n source destination])
  next
    case True
    from True "1.prems"(3) have rng: "n - i \<le> source + 1 \<and> source < NBITS b \<and>
        n - i \<le> destination + 1 \<and> destination < NBITS b" by simp
    note big = wf_geometry(5) [OF "1.prems"(1)]
    from rng have src: "source < NBITS b" and dst: "destination < NBITS b" by simp_all
    from test_wf [OF "1.prems"(1) src] obtain v where t: "test b source = Inr v" by simp
    from set_pos_keeps_invariant [OF "1.prems"(1,2) dst, of v] obtain b1 where
      s: "set_pos b destination v = Inr b1" and wf1: "well_formed b1" and inv1: "invariant b1"
      and nb1: "NBITS b1 = NBITS b" and sz1: "SIZE b1 = SIZE b"
      by blast
    let ?src' = "size_t_wrap (int source - 1)"
    let ?dst' = "size_t_wrap (int destination - 1)"
    have next_rng: "i + 1 < n \<longrightarrow> n - (i + 1) \<le> ?src' + 1 \<and> ?src' < NBITS b1 \<and>
        n - (i + 1) \<le> ?dst' + 1 \<and> ?dst' < NBITS b1"
    proof
      assume more: "i + 1 < n"
      from more rng have "0 < source" and "0 < destination" by auto
      with src dst big have "?src' = source - 1" and "?dst' = destination - 1"
        by (simp_all add: size_t_wrap_pred)
      with more rng nb1 show "n - (i + 1) \<le> ?src' + 1 \<and> ?src' < NBITS b1 \<and>
        n - (i + 1) \<le> ?dst' + 1 \<and> ?dst' < NBITS b1" by auto
    qed
    from "1.IH" [OF True t s wf1 inv1 next_rng] obtain b' d' where
      l: "shl_copy_loop b1 (i + 1) n ?src' ?dst' = Inr (b', d')"
      and wf': "well_formed b'" and inv': "invariant b'"
      and nb': "NBITS b' = NBITS b1" and sz': "SIZE b' = SIZE b1"
      and d': "i + 1 < n \<longrightarrow> n - (i + 1) \<le> ?dst' \<longrightarrow> d' = ?dst' - (n - (i + 1))"
      by blast
    have run: "shl_copy_loop b i n source destination = Inr (b', d')"
      using True t s l by (simp add: shl_copy_loop.simps [of b i n source destination])
    have "d' = destination - (n - i)" if le: "n - i \<le> destination"
    proof (cases "i + 1 < n")
      case True
      with le have pos: "0 < destination" by simp
      with dst big have e: "?dst' = destination - 1" by (simp add: size_t_wrap_pred)
      with True le d' show ?thesis by simp
    next
      case False
      with True have n: "n = i + 1" by simp
      with le have pos: "0 < destination" by simp
      with dst big have e: "?dst' = destination - 1" by (simp add: size_t_wrap_pred)
      from False have "shl_copy_loop b1 (i + 1) n ?src' ?dst' = Inr (b1, ?dst')"
        by (rule shl_copy_loop_exit)
      with l e n show ?thesis by simp
    qed
    with run wf' inv' nb' nb1 sz' sz1 show ?thesis by simp
  qed
qed

lemma shl_clear_loop_keeps_invariant:
  "well_formed b \<Longrightarrow> invariant b \<Longrightarrow>
   (i < shift \<longrightarrow> shift - i \<le> destination + 1 \<and> destination < NBITS b) \<Longrightarrow>
   \<exists>b'. shl_clear_loop b i shift destination = Inr b' \<and>
      well_formed b' \<and> invariant b' \<and> NBITS b' = NBITS b \<and> SIZE b' = SIZE b"
proof (induction b i shift destination rule: shl_clear_loop.induct)
  case (1 b i shift destination)
  show ?case
  proof (cases "i < shift")
    case False
    with "1.prems"(1,2) show ?thesis
      by (simp add: shl_clear_loop.simps [of b i shift destination])
  next
    case True
    from True "1.prems"(3) have rng: "shift - i \<le> destination + 1 \<and> destination < NBITS b"
      by simp
    note big = wf_geometry(5) [OF "1.prems"(1)]
    from rng have dst: "destination < NBITS b" by simp
    from set_pos_keeps_invariant [OF "1.prems"(1,2) dst, of False] obtain b1 where
      s: "reset_pos b destination = Inr b1" and wf1: "well_formed b1" and inv1: "invariant b1"
      and nb1: "NBITS b1 = NBITS b" and sz1: "SIZE b1 = SIZE b"
      by (auto simp add: reset_pos_eq_set_pos)
    let ?dst' = "size_t_wrap (int destination - 1)"
    have next_rng: "i + 1 < shift \<longrightarrow> shift - (i + 1) \<le> ?dst' + 1 \<and> ?dst' < NBITS b1"
    proof
      assume more: "i + 1 < shift"
      from more rng have "0 < destination" by auto
      with dst big have "?dst' = destination - 1" by (simp add: size_t_wrap_pred)
      with more rng nb1 show "shift - (i + 1) \<le> ?dst' + 1 \<and> ?dst' < NBITS b1" by auto
    qed
    from "1.IH" [OF True s wf1 inv1 next_rng] obtain b' where
      "shl_clear_loop b1 (i + 1) shift ?dst' = Inr b'"
      and "well_formed b'" and "invariant b'"
      and "NBITS b' = NBITS b1" and "SIZE b' = SIZE b1"
      by blast
    with True s nb1 sz1 show ?thesis
      by (simp add: shl_clear_loop.simps [of b i shift destination])
  qed
qed

text \<open>On the multi-element path \<open>operator<<=\<close> with a shift up to \<open>NBITS\<close> writes only
  positions below \<open>NBITS\<close>, so it returns and keeps the invariant.\<close>

lemma shl_multi_element_keeps_invariant:
  assumes "well_formed b" and "invariant b" and "SIZE b \<noteq> 1" and "shift \<le> NBITS b"
  shows "\<exists>b'. operator_shl_assign b shift = Inr b' \<and> well_formed b' \<and> invariant b' \<and>
           NBITS b' = NBITS b"
proof -
  note big = wf_geometry(5) [OF assms(1)]
  from assms(1) have pos: "0 < NBITS b" by (simp add: well_formed_def)
  let ?n = "size_t_wrap (int (NBITS b) - int shift)"
  let ?src = "size_t_wrap (int (NBITS b) - int shift - 1)"
  let ?dst = "size_t_wrap (int (NBITS b) - 1)"
  from assms(4) big have n: "?n = NBITS b - shift"
    using size_t_wrap_id [of "NBITS b - shift"] by simp
  from pos big have dst: "?dst = NBITS b - 1" by (simp add: size_t_wrap_pred)
  have src: "?src = NBITS b - shift - 1" if "shift < NBITS b"
  proof -
    from that have "int (NBITS b) - int shift - 1 = int (NBITS b - shift) - 1" by simp
    moreover from that big have "0 < NBITS b - shift" and "NBITS b - shift < 2 ^ 64" by simp_all
    ultimately show ?thesis by (simp only: size_t_wrap_pred)
  qed
  have rng: "0 < ?n \<longrightarrow>
      ?n - 0 \<le> ?src + 1 \<and> ?src < NBITS b \<and> ?n - 0 \<le> ?dst + 1 \<and> ?dst < NBITS b"
  proof
    assume "0 < ?n"
    with n have "shift < NBITS b" by simp
    with src n dst pos
    show "?n - 0 \<le> ?src + 1 \<and> ?src < NBITS b \<and> ?n - 0 \<le> ?dst + 1 \<and> ?dst < NBITS b"
      by simp
  qed
  from shl_copy_loop_keeps_invariant [OF assms(1,2) rng] obtain b1 d1 where
    c: "shl_copy_loop b 0 ?n ?src ?dst = Inr (b1, d1)"
    and wf1: "well_formed b1" and inv1: "invariant b1"
    and nb1: "NBITS b1 = NBITS b"
    and d1: "0 < ?n \<longrightarrow> ?n - 0 \<le> ?dst \<longrightarrow> d1 = ?dst - (?n - 0)"
    by auto
  have d1_shift: "d1 = shift - 1" if s: "0 < shift"
  proof (cases "0 < ?n")
    case True
    with n dst s d1 assms(4) show ?thesis by simp
  next
    case False
    with n assms(4) have e: "shift = NBITS b" by simp
    from False have "shl_copy_loop b 0 ?n ?src ?dst = Inr (b, ?dst)"
      by (rule shl_copy_loop_exit)
    with c dst e show ?thesis by simp
  qed
  have "0 < shift \<longrightarrow> shift - 0 \<le> d1 + 1 \<and> d1 < NBITS b1"
    using d1_shift assms(4) nb1 by auto
  from shl_clear_loop_keeps_invariant [OF wf1 inv1 this] obtain b' where
    "shl_clear_loop b1 0 shift d1 = Inr b'" and "well_formed b'" and "invariant b'"
    and "NBITS b' = NBITS b1"
    by blast
  with c nb1 assms(3) show ?thesis by (simp add: operator_shl_assign_def Let_def)
qed

lemma shr_copy_loop_keeps_invariant:
  "well_formed b \<Longrightarrow> invariant b \<Longrightarrow>
   (i < n \<longrightarrow> source + (n - i) \<le> NBITS b \<and> destination + (n - i) \<le> NBITS b) \<Longrightarrow>
   \<exists>b' d'. shr_copy_loop b i n source destination = Inr (b', d') \<and>
      well_formed b' \<and> invariant b' \<and> NBITS b' = NBITS b \<and> SIZE b' = SIZE b \<and>
      d' = destination + (n - i)"
proof (induction b i n source destination rule: shr_copy_loop.induct)
  case (1 b i n source destination)
  show ?case
  proof (cases "i < n")
    case False
    with "1.prems"(1,2) show ?thesis
      by (simp add: shr_copy_loop.simps [of b i n source destination])
  next
    case True
    from True "1.prems"(3) have rng: "source + (n - i) \<le> NBITS b"
      "destination + (n - i) \<le> NBITS b" by simp_all
    note big = wf_geometry(5) [OF "1.prems"(1)]
    from True rng have src: "source < NBITS b" and dst: "destination < NBITS b" by simp_all
    from test_wf [OF "1.prems"(1) src] obtain v where t: "test b source = Inr v" by simp
    from set_pos_keeps_invariant [OF "1.prems"(1,2) dst, of v] obtain b1 where
      s: "set_pos b destination v = Inr b1" and wf1: "well_formed b1" and inv1: "invariant b1"
      and nb1: "NBITS b1 = NBITS b" and sz1: "SIZE b1 = SIZE b"
      by blast
    from src dst big have e: "size_t_wrap (int source + 1) = source + 1"
      "size_t_wrap (int destination + 1) = destination + 1"
      by (simp_all add: size_t_wrap_succ)
    from True rng nb1 have next_rng: "i + 1 < n \<longrightarrow>
        source + 1 + (n - (i + 1)) \<le> NBITS b1 \<and> destination + 1 + (n - (i + 1)) \<le> NBITS b1"
      by (simp only:) arith
    from "1.IH" [OF True t s wf1 inv1] next_rng e obtain b' d' where
      "shr_copy_loop b1 (i + 1) n (source + 1) (destination + 1) = Inr (b', d')"
      and "well_formed b'" and "invariant b'"
      and "NBITS b' = NBITS b1" and "SIZE b' = SIZE b1"
      and "d' = destination + 1 + (n - (i + 1))"
      by auto
    with True t s e nb1 sz1 show ?thesis
      by (simp add: shr_copy_loop.simps [of b i n source destination])
  qed
qed

lemma shr_clear_loop_keeps_invariant:
  "well_formed b \<Longrightarrow> invariant b \<Longrightarrow>
   (i < shift \<longrightarrow> destination + (shift - i) \<le> NBITS b) \<Longrightarrow>
   \<exists>b'. shr_clear_loop b i shift destination = Inr b' \<and>
      well_formed b' \<and> invariant b' \<and> NBITS b' = NBITS b \<and> SIZE b' = SIZE b"
proof (induction b i shift destination rule: shr_clear_loop.induct)
  case (1 b i shift destination)
  show ?case
  proof (cases "i < shift")
    case False
    with "1.prems"(1,2) show ?thesis
      by (simp add: shr_clear_loop.simps [of b i shift destination])
  next
    case True
    from True "1.prems"(3) have rng: "destination + (shift - i) \<le> NBITS b" by simp
    note big = wf_geometry(5) [OF "1.prems"(1)]
    from True rng have dst: "destination < NBITS b" by simp
    from set_pos_keeps_invariant [OF "1.prems"(1,2) dst, of False] obtain b1 where
      s: "reset_pos b destination = Inr b1" and wf1: "well_formed b1" and inv1: "invariant b1"
      and nb1: "NBITS b1 = NBITS b" and sz1: "SIZE b1 = SIZE b"
      by (auto simp add: reset_pos_eq_set_pos)
    from dst big have e: "size_t_wrap (int destination + 1) = destination + 1"
      by (simp add: size_t_wrap_succ)
    from True rng nb1 have next_rng:
      "i + 1 < shift \<longrightarrow> destination + 1 + (shift - (i + 1)) \<le> NBITS b1"
      by (simp only:) arith
    from "1.IH" [OF True s wf1 inv1] next_rng e obtain b' where
      "shr_clear_loop b1 (i + 1) shift (destination + 1) = Inr b'"
      and "well_formed b'" and "invariant b'"
      and "NBITS b' = NBITS b1" and "SIZE b' = SIZE b1"
      by auto
    with True s e nb1 sz1 show ?thesis
      by (simp add: shr_clear_loop.simps [of b i shift destination])
  qed
qed

text \<open>\<open>operator>>=\<close> with a shift up to \<open>NBITS\<close> returns and keeps the invariant on
  both paths: the single element only loses high bits, and the multi-element loops
  write only positions below \<open>NBITS\<close>.\<close>

lemma shr_keeps_invariant:
  assumes "well_formed b" and "invariant b" and "shift \<le> NBITS b"
  shows "\<exists>b'. operator_shr_assign b shift = Inr b' \<and> well_formed b' \<and> invariant b' \<and>
           NBITS b' = NBITS b"
proof (cases "SIZE b = 1")
  case True
  note geo = wf_geometry [OF assms(1)]
  from True geo(3) assms(3) have s: "shift < 32" by simp
  let ?x = "pdata b ! 0"
  let ?b' = "b\<lparr>pdata := (pdata b)[0 := drop_bit shift ?x]\<rparr>"
  from True geo(2) s have run: "operator_shr_assign b shift = Inr ?b'"
    by (simp add: operator_shr_assign_def rd_def shr_elem_def wr_def)
  have wf': "well_formed ?b'" by (rule wf_pdata_update [OF assms(1)]) simp
  have "invariant ?b'"
    unfolding invariant_def BITS_PER_ELEMENT_def
  proof (intro ballI impI)
    fix k assume "k \<in> {0..<8::nat}" and "NBITS ?b' \<le> (SIZE ?b' - 1) * 8 + k"
    with True have k: "k < 8" and out: "NBITS b \<le> k" by simp_all
    have "\<not> bit ?x (k + shift)"
    proof (cases "k + shift < 8")
      case False
      then show ?thesis by (auto dest: bit_imp_le_length)
    next
      case lt: True
      with assms(2) True out show ?thesis
        by (simp add: invariant_def BITS_PER_ELEMENT_def)
    qed
    with True geo(2) show "\<not> bit (pdata ?b' ! (SIZE ?b' - 1)) k"
      by (simp add: bit_drop_bit_eq add.commute)
  qed
  with run wf' show ?thesis by simp
next
  case False
  note big = wf_geometry(5) [OF assms(1)]
  let ?n = "size_t_wrap (int (NBITS b) - int shift)"
  from assms(3) big have n: "?n = NBITS b - shift"
    using size_t_wrap_id [of "NBITS b - shift"] by simp
  from n assms(3) have "0 < ?n \<longrightarrow> shift + (?n - 0) \<le> NBITS b \<and> 0 + (?n - 0) \<le> NBITS b"
    by simp
  from shr_copy_loop_keeps_invariant [OF assms(1,2) this] obtain b1 d1 where
    c: "shr_copy_loop b 0 ?n shift 0 = Inr (b1, d1)"
    and wf1: "well_formed b1" and inv1: "invariant b1"
    and nb1: "NBITS b1 = NBITS b" and d1: "d1 = 0 + (?n - 0)"
    by auto
  from d1 n nb1 assms(3) have "0 < shift \<longrightarrow> d1 + (shift - 0) \<le> NBITS b1" by simp
  from shr_clear_loop_keeps_invariant [OF wf1 inv1 this] obtain b' where
    "shr_clear_loop b1 0 shift d1 = Inr b'" and "well_formed b'" and "invariant b'"
    and "NBITS b' = NBITS b1"
    by blast
  with c nb1 False show ?thesis by (simp add: operator_shr_assign_def Let_def)
qed

section \<open>Bit scanning from a start that is not skipped past\<close>

lemma mask_test: "bit_i < 8 \<Longrightarrow> ((v::element_t) AND push_bit bit_i 1 \<noteq> 0) = bit v bit_i"
  by (simp only: bit_iff_and_push_bit_not_eq_0)

lemma find_next_bits_scan:
  "v = pdata b ! idx \<Longrightarrow> position = idx * 8 + bit_i \<Longrightarrow> bit_i \<le> 8 \<Longrightarrow>
   msk = push_bit bit_i 1 \<Longrightarrow> NBITS b < 2 ^ 64 \<Longrightarrow>
   (case find_next_bits b state v bit_i msk position of
      Return p \<Rightarrow> position \<le> p \<and> p < NBITS b \<and> storage_bit b p = state \<and>
        (\<forall>q. position \<le> q \<and> q < p \<longrightarrow> storage_bit b q \<noteq> state)
    | Fallthrough p \<Rightarrow> p = max position (min (idx * 8 + 8) (NBITS b)) \<and>
        (\<forall>q. position \<le> q \<and> q < idx * 8 + 8 \<and> q < NBITS b \<longrightarrow> storage_bit b q \<noteq> state))"
proof (induction b state v bit_i msk position rule: find_next_bits.induct)
  case (1 b state v bit_i msk position)
  show ?case
  proof (cases "bit_i < BITS_PER_ELEMENT \<and> position < NBITS b")
    case False
    then have "find_next_bits b state v bit_i msk position = Fallthrough position"
      by (subst find_next_bits.simps) (simp only: if_False)
    moreover from False "1.prems"(2,3) have "min (idx * 8 + 8) (NBITS b) \<le> position"
      by (auto simp add: BITS_PER_ELEMENT_def)
    ultimately show ?thesis by (auto simp add: max_def)
  next
    case True
    then have bi: "bit_i < 8" and pn: "position < NBITS b"
      by (simp_all add: BITS_PER_ELEMENT_def)
    from "1.prems"(2) bi have dm: "position div 8 = idx" "position mod 8 = bit_i" by simp_all
    with "1.prems"(1) have here: "storage_bit b position = bit v bit_i"
      by (simp add: storage_bit_def)
    have hit: "(v AND msk \<noteq> 0) = bit v bit_i"
      using mask_test [OF bi] "1.prems"(4) by simp
    show ?thesis
    proof (cases "bit v bit_i = state")
      case match: True
      with True hit have "find_next_bits b state v bit_i msk position = Return position"
        by (simp add: find_next_bits.simps [of b state v bit_i msk position])
      with match here pn show ?thesis by auto
    next
      case miss: False
      from pn "1.prems"(5) have w: "size_t_wrap (int position + 1) = position + 1"
        by (intro size_t_wrap_succ) simp
      from True hit miss have step: "find_next_bits b state v bit_i msk position =
          find_next_bits b state v (bit_i + 1) (push_bit 1 msk) (position + 1)"
        by (simp add: find_next_bits.simps [of b state v bit_i msk position] w)
      have cond: "(v AND msk \<noteq> 0) \<noteq> state" using hit miss by simp
      have m': "push_bit 1 msk = push_bit (bit_i + 1) (1 :: element_t)"
        using "1.prems"(4) by (simp add: push_bit_eq_mult)
      from "1.prems"(2) have p': "position + 1 = idx * 8 + (bit_i + 1)" by simp
      from bi have b': "bit_i + 1 \<le> 8" by simp
      note ih = "1.IH" [OF True cond "1.prems"(1), unfolded w, OF p' b' m' "1.prems"(5)]
      from miss here have nothere: "storage_bit b position \<noteq> state" by simp
      have skip: "storage_bit b q \<noteq> state" if "position \<le> q" and "q < p"
        and rest: "\<forall>q. position + 1 \<le> q \<and> q < p \<longrightarrow> storage_bit b q \<noteq> state" for q p
      proof (cases "q = position")
        case True
        with nothere show ?thesis by simp
      next
        case False
        with that show ?thesis by simp
      qed
      from pn bi "1.prems"(2) have lt: "position < min (idx * 8 + 8) (NBITS b)" by simp
      show ?thesis
      proof (cases "find_next_bits b state v (bit_i + 1) (push_bit 1 msk) (position + 1)")
        case (Return p)
        with ih have "position + 1 \<le> p" "p < NBITS b" "storage_bit b p = state"
          and r: "\<forall>q. position + 1 \<le> q \<and> q < p \<longrightarrow> storage_bit b q \<noteq> state"
          by simp_all
        moreover from r have "\<forall>q. position \<le> q \<and> q < p \<longrightarrow> storage_bit b q \<noteq> state"
          using skip by blast
        ultimately show ?thesis using step Return by simp
      next
        case (Fallthrough p)
        with ih have p: "p = max (position + 1) (min (idx * 8 + 8) (NBITS b))"
          and r: "\<forall>q. position + 1 \<le> q \<and> q < idx * 8 + 8 \<and> q < NBITS b \<longrightarrow>
                storage_bit b q \<noteq> state"
          by simp_all
        from p lt have "p = max position (min (idx * 8 + 8) (NBITS b))" by simp
        moreover have "\<forall>q. position \<le> q \<and> q < idx * 8 + 8 \<and> q < NBITS b \<longrightarrow>
            storage_bit b q \<noteq> state"
        proof (intro allI impI)
          fix q assume q: "position \<le> q \<and> q < idx * 8 + 8 \<and> q < NBITS b"
          show "storage_bit b q \<noteq> state"
          proof (cases "q = position")
            case True
            with nothere show ?thesis by simp
          next
            case False
            with q r show ?thesis by simp
          qed
        qed
        ultimately show ?thesis using step Fallthrough by simp
      qed
    qed
  qed
qed

lemma skipped_no_match:
  assumes "skipped state v" and "j < 8"
  shows "bit v j \<noteq> state"
proof (cases state)
  case True
  with assms(1) have "v = 0" by (simp add: skipped_def ALL_CLEAR_def)
  with True show ?thesis by simp
next
  case False
  with assms(1) have "v = ALL_SET" by (simp add: skipped_def)
  with False assms(2) show ?thesis by (simp add: bit_ALL_SET)
qed

lemma first_match_extend:
  assumes "k \<le> s"
    and "\<forall>q. k \<le> q \<and> q < s \<and> q < NBITS b \<longrightarrow> storage_bit b q \<noteq> state"
    and "first_match b state s r"
  shows "first_match b state k r"
proof (cases "\<exists>p. s \<le> p \<and> p < NBITS b \<and> storage_bit b p = state")
  case True
  with assms(3) have r: "s \<le> r" "r < NBITS b" "storage_bit b r = state"
    and least: "\<forall>q. s \<le> q \<and> q < r \<longrightarrow> storage_bit b q \<noteq> state"
    by (simp_all add: first_match_def)
  have "storage_bit b q \<noteq> state" if "k \<le> q" and "q < r" for q
  proof (cases "q < s")
    case True
    with that r(2) assms(2) show ?thesis by simp
  next
    case False
    with that least show ?thesis by simp
  qed
  moreover from r assms(1) have "\<exists>p. k \<le> p \<and> p < NBITS b \<and> storage_bit b p = state"
    by (intro exI [of _ r]) simp
  ultimately show ?thesis using r assms(1) by (simp add: first_match_def)
next
  case False
  with assms(3) have r: "r = npos" by (simp add: first_match_def)
  have ne: "\<not> (\<exists>p. k \<le> p \<and> p < NBITS b \<and> storage_bit b p = state)"
  proof
    assume "\<exists>p. k \<le> p \<and> p < NBITS b \<and> storage_bit b p = state"
    then obtain p where p: "k \<le> p" "p < NBITS b" "storage_bit b p = state" by blast
    show False
    proof (cases "p < s")
      case True
      with p assms(2) show False by simp
    next
      case ge: False
      with p False show False by auto
    qed
  qed
  show ?thesis unfolding first_match_def using ne r by (simp only: if_False)
qed

lemma first_match_beyond: "first_match b state (NBITS b) npos"
  by (auto simp add: first_match_def)

lemma find_next_loop_scan:
  "well_formed b \<Longrightarrow> invariant b \<Longrightarrow>
   (index < SIZE b \<longrightarrow> position = index * 8 + bit_i \<and> bit_i < 8 \<and> msk = push_bit bit_i 1 \<and>
      position < NBITS b \<and>
      (bit_i = 0 \<or> \<not> skipped state (pdata b ! index) \<or> index + 1 = SIZE b)) \<Longrightarrow>
   \<exists>r. find_next_loop b state index bit_i msk position = Inr r \<and>
       first_match b state (if index < SIZE b then position else NBITS b) r"
proof (induction b state index bit_i msk position rule: find_next_loop.induct)
  case (1 b state index bit_i msk position)
  note geo = wf_geometry [OF "1.prems"(1)]
  show ?case
  proof (cases "index < SIZE b")
    case False
    then have "find_next_loop b state index bit_i msk position = Inr npos"
      by (subst find_next_loop.simps) (simp only: if_False)
    with False show ?thesis by (simp add: first_match_beyond)
  next
    case True
    let ?v = "pdata b ! index"
    from True geo(2) have r: "rd (pdata b) index = Inr ?v" by (simp add: rd_def)
    from True "1.prems"(3) have pos: "position = index * 8 + bit_i" and bi: "bit_i < 8"
      and msk: "msk = push_bit bit_i 1" and pn: "position < NBITS b"
      and good: "bit_i = 0 \<or> \<not> skipped state ?v \<or> index + 1 = SIZE b"
      by simp_all
    have next_start: "(index + 1) * 8 < NBITS b" if "index + 1 < SIZE b"
      using that geo(4) mult_le_mono1 [of "index + 1" "SIZE b - 1" 8] by simp
    have last_end: "NBITS b \<le> index * 8 + 8" if "\<not> index + 1 < SIZE b"
      using that True geo(3) by (simp add: algebra_simps)
    show ?thesis
    proof (cases "skipped state ?v")
      case sk: True
      then have cond: "\<not> ((state \<and> ?v \<noteq> ALL_CLEAR) \<or> (\<not> state \<and> ?v \<noteq> ALL_SET))"
        by (simp add: skipped_def)
      let ?p' = "size_t_wrap (int position + int BITS_PER_ELEMENT)"
      have step: "find_next_loop b state index bit_i msk position =
          find_next_loop b state (index + 1) 0 1 ?p'"
        using True r cond
        by (subst find_next_loop.simps) (simp only: if_True if_False sum.case)
      have element: "storage_bit b q \<noteq> state" if "q div 8 = index" for q
        using skipped_no_match [OF sk, of "q mod 8"] that by (simp add: storage_bit_def)
      have aligned: "?p' = (index + 1) * 8" if more: "index + 1 < SIZE b"
      proof -
        from more good sk have "bit_i = 0" by simp
        with pos have "int position + int BITS_PER_ELEMENT = int ((index + 1) * 8)"
          by (simp add: BITS_PER_ELEMENT_def)
        moreover from next_start [OF more] geo(5) have "(index + 1) * 8 < 2 ^ 64" by simp
        ultimately show ?thesis by (simp only: size_t_wrap_id)
      qed
      have pre: "index + 1 < SIZE b \<longrightarrow> ?p' = (index + 1) * 8 + 0 \<and> (0::nat) < 8 \<and>
          (1 :: element_t) = push_bit 0 1 \<and> ?p' < NBITS b \<and>
          ((0::nat) = 0 \<or> \<not> skipped state (pdata b ! (index + 1)) \<or> index + 1 + 1 = SIZE b)"
        using aligned next_start by simp
      from "1.IH"(2) [OF True r cond "1.prems"(1,2) pre] obtain res where
        l: "find_next_loop b state (index + 1) 0 1 ?p' = Inr res"
        and fm: "first_match b state (if index + 1 < SIZE b then ?p' else NBITS b) res"
        by blast
      let ?s = "if index + 1 < SIZE b then ?p' else NBITS b"
      have le: "position \<le> ?s"
      proof (cases "index + 1 < SIZE b")
        case True
        with aligned pos bi show ?thesis by simp
      next
        case False
        with pn show ?thesis by simp
      qed
      have none_between:
        "\<forall>q. position \<le> q \<and> q < ?s \<and> q < NBITS b \<longrightarrow> storage_bit b q \<noteq> state"
      proof (intro allI impI)
        fix q assume q: "position \<le> q \<and> q < ?s \<and> q < NBITS b"
        have "q < index * 8 + 8"
        proof (cases "index + 1 < SIZE b")
          case True
          with aligned q show ?thesis by simp
        next
          case False
          with last_end q show ?thesis by simp
        qed
        moreover from q pos have "index * 8 \<le> q" by simp
        ultimately have "q div 8 = index" by (intro div_nat_eqI) (simp_all add: algebra_simps)
        then show "storage_bit b q \<noteq> state" by (rule element)
      qed
      from first_match_extend [OF le none_between fm] step l True show ?thesis by simp
    next
      case nsk: False
      then have cond: "(state \<and> ?v \<noteq> ALL_CLEAR) \<or> (\<not> state \<and> ?v \<noteq> ALL_SET)"
        by (simp add: skipped_def)
      from bi have bi8: "bit_i \<le> 8" by simp
      note scan = find_next_bits_scan [OF refl pos bi8 msk geo(5), of state]
      show ?thesis
      proof (cases "find_next_bits b state ?v bit_i msk position")
        case (Return p)
        have "find_next_loop b state index bit_i msk position = Inr p"
          using True r cond Return
          by (subst find_next_loop.simps) (simp only: if_True sum.case scan.case)
        moreover from scan Return have "first_match b state position p"
          by (auto simp add: first_match_def)
        ultimately show ?thesis using True by simp
      next
        case (Fallthrough p)
        have step: "find_next_loop b state index bit_i msk position =
            find_next_loop b state (index + 1) 0 1 p"
          using True r cond Fallthrough
          by (subst find_next_loop.simps) (simp only: if_True sum.case scan.case)
        from scan Fallthrough have p: "p = max position (min (index * 8 + 8) (NBITS b))"
          and nm: "\<forall>q. position \<le> q \<and> q < index * 8 + 8 \<and> q < NBITS b \<longrightarrow>
                storage_bit b q \<noteq> state"
          by simp_all
        have aligned: "p = (index + 1) * 8" if more: "index + 1 < SIZE b"
          using next_start [OF more] p pos bi by simp
        have pre: "index + 1 < SIZE b \<longrightarrow> p = (index + 1) * 8 + 0 \<and> (0::nat) < 8 \<and>
            (1 :: element_t) = push_bit 0 1 \<and> p < NBITS b \<and>
            ((0::nat) = 0 \<or> \<not> skipped state (pdata b ! (index + 1)) \<or> index + 1 + 1 = SIZE b)"
          using aligned next_start by simp
        from "1.IH"(1) [OF True r cond Fallthrough "1.prems"(1,2) pre] obtain res where
          l: "find_next_loop b state (index + 1) 0 1 p = Inr res"
          and fm: "first_match b state (if index + 1 < SIZE b then p else NBITS b) res"
          by blast
        let ?s = "if index + 1 < SIZE b then p else NBITS b"
        have le: "position \<le> ?s"
        proof (cases "index + 1 < SIZE b")
          case True
          with p show ?thesis by simp
        next
          case False
          with pn show ?thesis by simp
        qed
        have none_between:
          "\<forall>q. position \<le> q \<and> q < ?s \<and> q < NBITS b \<longrightarrow> storage_bit b q \<noteq> state"
        proof (intro allI impI)
          fix q assume q: "position \<le> q \<and> q < ?s \<and> q < NBITS b"
          have "q < index * 8 + 8"
          proof (cases "index + 1 < SIZE b")
            case True
            with aligned q show ?thesis by simp
          next
            case False
            with last_end q show ?thesis by simp
          qed
          with q nm show "storage_bit b q \<noteq> state" by simp
        qed
        from first_match_extend [OF le none_between fm] step l True show ?thesis by simp
      qed
    qed
  qed
qed

lemma find_next_start:
  assumes "well_formed b" and "k < NBITS b"
  shows "find_next b state k =
    find_next_loop b state (k div 8) (k mod 8) (push_bit (k mod 8) 1) k"
proof (cases "SIZE b = 1")
  case True
  with wf_geometry(3) [OF assms(1)] assms(2) have "k < 8" by simp
  with True show ?thesis by (simp add: find_next_def shl_elem_def Let_def)
next
  case False
  have "k mod 8 < 32" using mod_less_divisor [of 8 k] by linarith
  with False show ?thesis
    by (simp add: find_next_def shl_elem_def Let_def BITS_PER_ELEMENT_def
        log2_BITS_PER_ELEMENT_def and7 drop3)
qed

lemma test_storage_bit:
  "well_formed b \<Longrightarrow> p < NBITS b \<Longrightarrow> test b p = Inr (storage_bit b p)"
  by (simp add: test_wf storage_bit_def)

text \<open>When the start is element-aligned, or the element holding the start is scanned
  rather than skipped, or it is the last element, \<open>find_next\<close> returns the first
  position from the start whose bit has the state searched for, or \<open>npos\<close>.\<close>

lemma find_next_first_match:
  assumes "well_formed b" and "invariant b" and "k < NBITS b"
    and "k mod 8 = 0 \<or> \<not> skipped state (pdata b ! (k div 8)) \<or> k div 8 + 1 = SIZE b"
  shows "\<exists>r. find_next b state k = Inr r \<and> first_match b state k r"
proof -
  from index_in_storage [OF assms(1,3)] wf_geometry(2) [OF assms(1)]
  have idx: "k div 8 < SIZE b" by simp
  have "k div 8 < SIZE b \<longrightarrow> k = k div 8 * 8 + k mod 8 \<and> k mod 8 < 8 \<and>
      (push_bit (k mod 8) 1 :: element_t) = push_bit (k mod 8) 1 \<and> k < NBITS b \<and>
      (k mod 8 = 0 \<or> \<not> skipped state (pdata b ! (k div 8)) \<or> k div 8 + 1 = SIZE b)"
    using assms(3,4) by simp
  from find_next_loop_scan [OF assms(1,2) this] idx show ?thesis
    by (simp add: find_next_start [OF assms(1,3)])
qed

lemma find_first_first_match:
  assumes "well_formed b" and "invariant b"
  shows "\<exists>r. find_first b state = Inr r \<and> first_match b state 0 r"
proof -
  from assms(1) have "0 < NBITS b" by (simp add: well_formed_def)
  from find_next_first_match [OF assms this, of state] show ?thesis
    by (simp add: find_first_def)
qed

lemma first_match_by_test:
  assumes "well_formed b" and "first_match b state k r"
  shows "if \<exists>p. k \<le> p \<and> p < NBITS b \<and> test b p = Inr state
         then k \<le> r \<and> r < NBITS b \<and> test b r = Inr state \<and>
              (\<forall>q. k \<le> q \<and> q < r \<longrightarrow> test b q \<noteq> Inr state)
         else r = npos"
proof (cases "\<exists>p. k \<le> p \<and> p < NBITS b \<and> storage_bit b p = state")
  case True
  with assms(2) have r: "k \<le> r" "r < NBITS b" "storage_bit b r = state"
    and least: "\<forall>q. k \<le> q \<and> q < r \<longrightarrow> storage_bit b q \<noteq> state"
    by (simp_all add: first_match_def)
  from r have "test b r = Inr state" by (simp add: test_storage_bit [OF assms(1)])
  moreover have "test b q \<noteq> Inr state" if "k \<le> q" and "q < r" for q
  proof -
    from that r(2) have "q < NBITS b" by simp
    with that least show ?thesis by (simp add: test_storage_bit [OF assms(1)])
  qed
  ultimately show ?thesis using r by auto
next
  case False
  with assms(2) have r: "r = npos" by (simp add: first_match_def)
  from False have ne: "\<not> (\<exists>p. k \<le> p \<and> p < NBITS b \<and> test b p = Inr state)"
    by (auto simp add: test_storage_bit [OF assms(1)])
  show ?thesis using ne r by (simp only: if_False)
qed

end
